theory Spec2Isabelle
  imports Complex_Main "HOL-Library.Sublist"
begin

section \<open>Numbers\<close>

text \<open>
  The program is TypeScript: every \<open>number\<close> is an IEEE-754 binary64 value, and
  \<open>+\<close>, \<open>-\<close>, \<open>*\<close>, \<open>/\<close> round their exact result to the nearest double, ties to
  even. A finite double is modelled by its exact rational value, and every operation
  rounds its exact result.

  \<^item> Move scores and the accuracy percentage are fractions (\<open>0.95\<close>, a mean). They stay
    between \<open>0.1\<close> and the number of moves, so they are plain rationals rounded by
    \<open>to_double\<close>, which has the 53-bit significand and no bound on the exponent.
  \<^item> Engine evaluations and centipawn losses come from \<open>parseInt\<close> on digits the
    engine sends, which may be of any length. They are values of the type
    \<open>number\<close> below, with the two infinities and NaN: \<open>round_number\<close> is
    \<open>to_double\<close> with overflow. All finite values on this side are integers, so no
    subnormal number arises; \<open>-0\<close> is not told from \<open>0\<close>, which no comparison or
    operation used here can tell apart.
\<close>

definition pow2 :: "int \<Rightarrow> rat" where
  "pow2 e = (if 0 \<le> e then 2 ^ nat e else 1 / 2 ^ nat (- e))"

lemma floor_half_less:
  assumes "1 \<le> (x::rat)"
  shows "\<lfloor>x / 2\<rfloor> < \<lfloor>x\<rfloor>"
proof -
  have a: "x < of_int \<lfloor>x\<rfloor> + 1" by linarith
  have "1 \<le> \<lfloor>x\<rfloor>" using assms by (simp add: le_floor_iff)
  then have b: "(1::rat) \<le> of_int \<lfloor>x\<rfloor>" by simp
  from a b have "x / 2 < of_int \<lfloor>x\<rfloor>" by linarith
  then show ?thesis by (simp add: floor_less_iff)
qed

text \<open>The binary exponent of a positive rational: \<open>expo q = e\<close> with \<open>2^e \<le> q < 2^(e+1)\<close>.\<close>

function expo_hi :: "rat \<Rightarrow> int" where
  "expo_hi q = (if 2 \<le> q then expo_hi (q / 2) + 1 else 0)"
  by pat_completeness auto
termination
proof (relation "measure (\<lambda>q. nat \<lfloor>q\<rfloor>)")
  show "wf (measure (\<lambda>q::rat. nat \<lfloor>q\<rfloor>))" by simp
next
  fix q :: rat
  assume q: "2 \<le> q"
  then have "\<lfloor>q / 2\<rfloor> < \<lfloor>q\<rfloor>" by (intro floor_half_less) simp
  moreover have "0 < \<lfloor>q\<rfloor>" using q by simp
  ultimately show "(q / 2, q) \<in> measure (\<lambda>q. nat \<lfloor>q\<rfloor>)" by simp
qed

function expo_lo :: "rat \<Rightarrow> int" where
  "expo_lo q = (if 0 < q \<and> q < 1 then expo_lo (q * 2) - 1 else 0)"
  by pat_completeness auto
termination
proof (relation "measure (\<lambda>q. nat \<lfloor>1 / q\<rfloor>)")
  show "wf (measure (\<lambda>q::rat. nat \<lfloor>1 / q\<rfloor>))" by simp
next
  fix q :: rat
  assume q: "0 < q \<and> q < 1"
  then have one: "1 \<le> 1 / q" by simp
  have "\<lfloor>(1 / q) / 2\<rfloor> < \<lfloor>1 / q\<rfloor>" by (rule floor_half_less [OF one])
  moreover have "(1 / q) / 2 = 1 / (q * 2)" by simp
  moreover have "0 < \<lfloor>1 / q\<rfloor>" using one by simp
  ultimately show "(q * 2, q) \<in> measure (\<lambda>q. nat \<lfloor>1 / q\<rfloor>)" by simp
qed

declare expo_hi.simps [simp del] expo_lo.simps [simp del]

definition expo :: "rat \<Rightarrow> int" where
  "expo q = (if 1 \<le> q then expo_hi q else expo_lo q)"

definition round_half_even :: "rat \<Rightarrow> int" where
  "round_half_even x =
     (let f = \<lfloor>x\<rfloor>; r = x - of_int f
      in if r < 1 / 2 then f else if 1 / 2 < r then f + 1 else if even f then f else f + 1)"

text \<open>
  Rounding to binary64: 53 significant bits, so the unit in the last place of \<open>q\<close> is
  \<open>2^(expo q - 52)\<close>, and \<open>q\<close> goes to the nearest multiple of it.
\<close>

definition to_double :: "rat \<Rightarrow> rat" where
  "to_double q =
     (if q = 0 then 0
      else (let a = \<bar>q\<bar>; u = pow2 (expo a - 52)
            in sgn q * of_int (round_half_even (a / u)) * u))"

definition dadd :: "rat \<Rightarrow> rat \<Rightarrow> rat" where
  "dadd a b = to_double (a + b)"

definition dmul :: "rat \<Rightarrow> rat \<Rightarrow> rat" where
  "dmul a b = to_double (a * b)"

definition ddiv :: "rat \<Rightarrow> rat \<Rightarrow> rat" where
  "ddiv a b = to_double (a / b)"

text \<open>The values of the type \<open>number\<close>.\<close>

datatype number = Num rat | PosInf | NegInf | NaN

text \<open>
  Rounding with overflow: a result that rounds to \<open>2^1024\<close> or beyond in magnitude
  is an infinity.
\<close>

definition overflow :: rat where
  "overflow = 2 ^ 1024"

definition round_number :: "rat \<Rightarrow> number" where
  "round_number q =
     (let r = to_double q
      in if overflow \<le> r then PosInf else if r \<le> - overflow then NegInf else Num r)"

text \<open>Unary minus, \<open>Math.abs\<close>, \<open>-\<close> and \<open>*\<close>.\<close>

fun nneg :: "number \<Rightarrow> number" where
  "nneg (Num a) = Num (- a)"
| "nneg PosInf = NegInf"
| "nneg NegInf = PosInf"
| "nneg NaN = NaN"

fun nabs :: "number \<Rightarrow> number" where
  "nabs (Num a) = Num \<bar>a\<bar>"
| "nabs PosInf = PosInf"
| "nabs NegInf = PosInf"
| "nabs NaN = NaN"

fun nsub :: "number \<Rightarrow> number \<Rightarrow> number" where
  "nsub (Num a) (Num b) = round_number (a - b)"
| "nsub (Num a) PosInf = NegInf"
| "nsub (Num a) NegInf = PosInf"
| "nsub PosInf (Num b) = PosInf"
| "nsub PosInf NegInf = PosInf"
| "nsub PosInf PosInf = NaN"
| "nsub NegInf (Num b) = NegInf"
| "nsub NegInf PosInf = NegInf"
| "nsub NegInf NegInf = NaN"
| "nsub NaN y = NaN"
| "nsub (Num a) NaN = NaN"
| "nsub PosInf NaN = NaN"
| "nsub NegInf NaN = NaN"

fun nmul :: "number \<Rightarrow> number \<Rightarrow> number" where
  "nmul (Num a) (Num b) = round_number (a * b)"
| "nmul (Num a) PosInf = (if a = 0 then NaN else if 0 < a then PosInf else NegInf)"
| "nmul (Num a) NegInf = (if a = 0 then NaN else if 0 < a then NegInf else PosInf)"
| "nmul PosInf (Num b) = (if b = 0 then NaN else if 0 < b then PosInf else NegInf)"
| "nmul NegInf (Num b) = (if b = 0 then NaN else if 0 < b then NegInf else PosInf)"
| "nmul PosInf PosInf = PosInf"
| "nmul PosInf NegInf = NegInf"
| "nmul NegInf PosInf = NegInf"
| "nmul NegInf NegInf = PosInf"
| "nmul NaN y = NaN"
| "nmul (Num a) NaN = NaN"
| "nmul PosInf NaN = NaN"
| "nmul NegInf NaN = NaN"

text \<open>The comparisons \<open><\<close> and \<open><=\<close>; every comparison with NaN is false.\<close>

fun nlt :: "number \<Rightarrow> number \<Rightarrow> bool" where
  "nlt (Num a) (Num b) = (a < b)"
| "nlt (Num a) PosInf = True"
| "nlt (Num a) NegInf = False"
| "nlt PosInf y = False"
| "nlt NegInf (Num b) = True"
| "nlt NegInf PosInf = True"
| "nlt NegInf NegInf = False"
| "nlt NaN y = False"
| "nlt (Num a) NaN = False"
| "nlt NegInf NaN = False"

fun nle :: "number \<Rightarrow> number \<Rightarrow> bool" where
  "nle (Num a) (Num b) = (a \<le> b)"
| "nle (Num a) PosInf = True"
| "nle (Num a) NegInf = False"
| "nle PosInf (Num b) = False"
| "nle PosInf PosInf = True"
| "nle PosInf NegInf = False"
| "nle NegInf (Num b) = True"
| "nle NegInf PosInf = True"
| "nle NegInf NegInf = True"
| "nle NaN y = False"
| "nle (Num a) NaN = False"
| "nle PosInf NaN = False"
| "nle NegInf NaN = False"

text \<open>\<open>Math.round\<close>: the integer nearest to the value, a tie going up.\<close>

fun math_round :: "number \<Rightarrow> number" where
  "math_round (Num a) = Num (of_int \<lfloor>a + 1 / 2\<rfloor>)"
| "math_round PosInf = PosInf"
| "math_round NegInf = NegInf"
| "math_round NaN = NaN"

section \<open>Scoring arithmetic\<close>

text \<open>
  \<open>cplToMoveScore\<close> of \<open>stockfish.ts\<close>. A literal such as \<open>0.95\<close> denotes the double
  nearest to it.
\<close>

definition cplToMoveScore :: "number \<Rightarrow> rat" where
  "cplToMoveScore cpl =
     (if nle cpl (Num 10) then 1
      else if nle cpl (Num 30) then to_double (95 / 100)
      else if nle cpl (Num 60) then to_double (80 / 100)
      else if nle cpl (Num 100) then to_double (60 / 100)
      else if nle cpl (Num 200) then to_double (30 / 100)
      else to_double (10 / 100))"

text \<open>
  The tail of \<open>analyze\<close>: \<open>0\<close> for no scores, else
  \<open>moveScores.reduce((s, m) => s + m.score, 0) / moveScores.length * 100\<close>.
\<close>

definition accuracy :: "rat list \<Rightarrow> rat" where
  "accuracy scores =
     (if scores = [] then 0
      else dmul (ddiv (foldl dadd 0 scores) (of_nat (length scores))) 100)"


text \<open>
  The centipawn loss of one move, from the loop body of \<open>analyze\<close>: both
  evaluations are from White's side, \<open>playerMultiplier\<close> turns them to the mover's
  side, and a negative difference is clamped to \<open>0\<close>.
\<close>

datatype side = W | B

definition playerMultiplier :: "side \<Rightarrow> number" where
  "playerMultiplier turnBefore = (if turnBefore = W then Num 1 else Num (- 1))"

definition centipawnLoss :: "side \<Rightarrow> number \<Rightarrow> number \<Rightarrow> number" where
  "centipawnLoss turnBefore evalBest evalPlayed =
     (let evalBestPersp = nmul evalBest (playerMultiplier turnBefore);
          evalPlayedPersp = nmul evalPlayed (playerMultiplier turnBefore);
          cpl = nsub evalBestPersp evalPlayedPersp
      in if nlt cpl (Num 0) then Num 0 else cpl)"

section \<open>Reading engine lines\<close>

text \<open>
  Strings are lists of 8-bit characters, enough for the ASCII an engine speaks
  (a JavaScript string has 16-bit units; those above 255 are not represented). The
  two regular
  expressions of \<open>parseScoreFromInfoLine\<close>, \<open>/score cp (-?\d+)/\<close> and
  \<open>/score mate (-?\d+)/\<close>, are unanchored: \<open>capture_after kw line\<close> is the first
  capture group of the leftmost match of \<open>kw(-?\d+)\<close> in \<open>line\<close>.
\<close>

definition is_digit :: "char \<Rightarrow> bool" where
  "is_digit c = (c \<in> set ''0123456789'')"

definition digit_val :: "char \<Rightarrow> nat" where
  "digit_val c = length (takeWhile (\<lambda>d. d \<noteq> c) ''0123456789'')"

definition digits_value :: "string \<Rightarrow> nat" where
  "digits_value ds = foldl (\<lambda>acc c. 10 * acc + digit_val c) 0 ds"

text \<open>
  \<open>parseInt(s, 10)\<close>, applied only to a capture of \<open>-?\d+\<close>: the double nearest to
  the integer that the digits spell, an infinity when that is out of range, with the
  sign put on afterwards. (Beyond the twentieth significant digit the language lets an
  implementation read further digits as zeros; the model reads them all.)
\<close>

definition parseInt10 :: "string \<Rightarrow> number" where
  "parseInt10 s =
     (if s \<noteq> [] \<and> hd s = CHR ''-'' then nneg (round_number (of_nat (digits_value (tl s))))
      else round_number (of_nat (digits_value s)))"

text \<open>
  \<open>-?\d+\<close> at the start of \<open>s\<close>: an optional minus sign, then as many digits as
  there are, at least one.
\<close>

definition signed_number :: "string \<Rightarrow> string option" where
  "signed_number s =
     (let neg = (s \<noteq> [] \<and> hd s = CHR ''-'');
          ds = takeWhile is_digit (if neg then tl s else s)
      in if ds = [] then None else Some (if neg then CHR ''-'' # ds else ds))"

definition match_at :: "string \<Rightarrow> string \<Rightarrow> string option" where
  "match_at kw s = (if prefix kw s then signed_number (drop (length kw) s) else None)"

fun capture_after :: "string \<Rightarrow> string \<Rightarrow> string option" where
  "capture_after kw [] = match_at kw []"
| "capture_after kw (c # cs) =
     (case match_at kw (c # cs) of Some g \<Rightarrow> Some g | None \<Rightarrow> capture_after kw cs)"

definition parseScoreFromInfoLine :: "string \<Rightarrow> number option" where
  "parseScoreFromInfoLine line =
     (case capture_after ''score cp '' line of
        Some cp \<Rightarrow> Some (parseInt10 cp)
      | None \<Rightarrow>
          (case capture_after ''score mate '' line of
             Some m \<Rightarrow>
               (let mateDistance = parseInt10 m;
                    sign = (if nle (Num 0) mateDistance then Num 1 else Num (- 1));
                    mag = nsub (Num 100000) (nabs mateDistance)
                in Some (nmul sign mag))
           | None \<Rightarrow> None))"

text \<open>
  The suggested move of a terminal line, \<open>bmMatch ? bmMatch[1] : null\<close> for
  \<open>/^bestmove\s+([a-h][1-8][a-h][1-8qrbn]?)\b/\<close>. The group is three characters and
  an optional fourth from \<open>[1-8qrbn]\<close>; the optional one is taken when it is there, and
  giving it back cannot help, since \<open>\b\<close> would then stand between two word characters.
\<close>

definition is_space :: "char \<Rightarrow> bool" where
  "is_space c = (c \<in> set [CHR '' '', CHR 0x09, CHR 0x0A, CHR 0x0B, CHR 0x0C, CHR 0x0D, CHR 0xA0])"

definition is_file :: "char \<Rightarrow> bool" where
  "is_file c = (c \<in> set ''abcdefgh'')"

definition is_rank :: "char \<Rightarrow> bool" where
  "is_rank c = (c \<in> set ''12345678'')"

definition is_rank_or_promotion :: "char \<Rightarrow> bool" where
  "is_rank_or_promotion c = (c \<in> set ''12345678qrbn'')"

definition is_word_char :: "char \<Rightarrow> bool" where
  "is_word_char c =
     (c \<in> set ''ABCDEFGHIJKLMNOPQRSTUVWXYZabcdefghijklmnopqrstuvwxyz0123456789_'')"

definition word_boundary :: "string \<Rightarrow> bool" where
  "word_boundary rest = (case rest of [] \<Rightarrow> True | c # _ \<Rightarrow> \<not> is_word_char c)"

definition bestMoveUci :: "string \<Rightarrow> string option" where
  "bestMoveUci bestMoveLine =
     (if \<not> prefix ''bestmove'' bestMoveLine then None
      else (let r = drop 8 bestMoveLine; m = dropWhile is_space r
            in if length m = length r then None
               else (case m of
                       c1 # c2 # c3 # t \<Rightarrow>
                         if is_file c1 \<and> is_rank c2 \<and> is_file c3 then
                           (case t of
                              [] \<Rightarrow> Some [c1, c2, c3]
                            | x # t' \<Rightarrow>
                                if is_rank_or_promotion x
                                then (if word_boundary t' then Some [c1, c2, c3, x] else None)
                                else (if word_boundary t then Some [c1, c2, c3] else None))
                         else None
                     | _ \<Rightarrow> None)))"

text \<open>A number in a template string, \<open>`go depth ${depth}`\<close>: its decimal digits.\<close>

definition digit_char :: "nat \<Rightarrow> char" where
  "digit_char d = ''0123456789'' ! d"

fun dec_nat :: "nat \<Rightarrow> string" where
  "dec_nat n = (if n < 10 then [digit_char n] else dec_nat (n div 10) @ [digit_char (n mod 10)])"

declare dec_nat.simps [simp del]

section \<open>The engine session and the analysis\<close>

text \<open>
  \<open>UciEngine\<close> writes commands to the engine's standard input and hands each output
  line to the one handler in its \<open>onLine\<close> slot; a line that arrives while the slot is
  \<open>null\<close> is dropped. The model threads an \<open>engine\<close> through the calls:
  \<open>incoming\<close> holds the lines that will reach a handler, in order, and \<open>trace\<close>
  records what the program does to the session. A wait whose timer fires is a wait
  that finds \<open>incoming\<close> exhausted: the promise is rejected and the error ends
  \<open>analyze\<close>, which has no \<open>try\<close> around its waits. A process that cannot be
  spawned is not modelled.
\<close>

datatype event =
    Send string       \<comment> \<open>\<open>proc.stdin.write(cmd + "\n")\<close>\<close>
  | Sleep nat         \<comment> \<open>\<open>await new Promise((r) => setTimeout(r, ms))\<close>\<close>
  | Register          \<comment> \<open>\<open>onLine = handler\<close>\<close>
  | Deliver string    \<comment> \<open>the handler is called with a line\<close>
  | Clear             \<comment> \<open>\<open>onLine = null\<close>\<close>

datatype error =
    WaitTimeout       \<comment> \<open>\<open>Error("Timeout waiting for engine line")\<close>\<close>
  | EvalTimeout       \<comment> \<open>\<open>Error("Engine timed out during evalPosition")\<close>\<close>

record engine =
  incoming :: "string list"
  trace :: "event list"

definition send :: "string \<Rightarrow> engine \<Rightarrow> engine" where
  "send cmd e = e\<lparr>trace := trace e @ [Send cmd]\<rparr>"

definition sleep :: "nat \<Rightarrow> engine \<Rightarrow> engine" where
  "sleep ms e = e\<lparr>trace := trace e @ [Sleep ms]\<rparr>"

text \<open>The two template strings \<open>`position fen ${fen}`\<close> and \<open>`go depth ${depth}`\<close>.\<close>

definition position_fen :: "string \<Rightarrow> string" where
  "position_fen fen = ''position fen '' @ fen"

definition go_depth :: "nat \<Rightarrow> string" where
  "go_depth depth = ''go depth '' @ dec_nat depth"

text \<open>The constructor of \<open>UciEngine\<close>: spawn the process, send \<open>uci\<close>.\<close>

definition new_UciEngine :: "string list \<Rightarrow> engine" where
  "new_UciEngine lines = send ''uci'' \<lparr>incoming = lines, trace = []\<rparr>"

fun await_line :: "(string \<Rightarrow> bool) \<Rightarrow> string list \<Rightarrow> event list \<times> (string \<times> string list) option" where
  "await_line predicate [] = ([Clear], None)"
| "await_line predicate (l # ls) =
     (if predicate l then ([Deliver l, Clear], Some (l, ls))
      else (case await_line predicate ls of (es, r) \<Rightarrow> (Deliver l # es, r)))"

definition waitForLineMatching :: "(string \<Rightarrow> bool) \<Rightarrow> engine \<Rightarrow> (error + string) \<times> engine" where
  "waitForLineMatching predicate e =
     (case await_line predicate (incoming e) of
        (es, None) \<Rightarrow> (Inl WaitTimeout, \<lparr>incoming = [], trace = trace e @ Register # es\<rparr>)
      | (es, Some (l, ls)) \<Rightarrow> (Inr l, \<lparr>incoming = ls, trace = trace e @ Register # es\<rparr>))"

definition quit :: "engine \<Rightarrow> engine" where
  "quit e = sleep 50 (send ''quit'' e)"

text \<open>
  The handler of \<open>evalPosition\<close>: every line is first parsed for a score, then tested
  for \<open>bestmove\<close>.
\<close>

fun eval_lines ::
  "number option \<Rightarrow> string list \<Rightarrow> event list \<times> (number \<times> string list) option" where
  "eval_lines lastScore [] = ([Clear], None)"
| "eval_lines lastScore (l # ls) =
     (if prefix ''bestmove'' l
      then ([Deliver l, Clear],
            Some (case (case parseScoreFromInfoLine l of Some possible \<Rightarrow> Some possible
                        | None \<Rightarrow> lastScore) of
                    None \<Rightarrow> Num 0 | Some v \<Rightarrow> v, ls))
      else (case eval_lines (case parseScoreFromInfoLine l of Some possible \<Rightarrow> Some possible
                             | None \<Rightarrow> lastScore) ls of
              (es, r) \<Rightarrow> (Deliver l # es, r)))"

definition evalPosition :: "string \<Rightarrow> nat \<Rightarrow> engine \<Rightarrow> (error + number) \<times> engine" where
  "evalPosition fen depth e =
     (let e1 = send (position_fen fen) e;
          e2 = send (go_depth depth) e1
      in case eval_lines None (incoming e2) of
           (es, None) \<Rightarrow> (Inl EvalTimeout, \<lparr>incoming = [], trace = trace e2 @ Register # es\<rparr>)
         | (es, Some (v, ls)) \<Rightarrow> (Inr v, \<lparr>incoming = ls, trace = trace e2 @ Register # es\<rparr>))"

text \<open>
  \<open>analyze\<close> replays the PGN with chess.js into \<open>moveRecords\<close> before it starts the
  engine; chess.js is a library, so the records are an input here, and so is its move
  application \<open>temp.move({ from, to, promotion })\<close> on the position \<open>rec.fromFen\<close>:
  \<open>None\<close> when it throws, else the FEN after the move.
\<close>

record move_record =
  moveSan :: string
  fromFen :: string
  toFen :: string
  turnBefore :: side

record move_score =
  idx :: nat
  move :: string
  cpl :: number
  score :: rat

type_synonym move_applier = "string \<Rightarrow> string \<Rightarrow> string \<Rightarrow> char option \<Rightarrow> string option"

definition apply_suggestion :: "move_applier \<Rightarrow> string \<Rightarrow> string \<Rightarrow> string option" where
  "apply_suggestion chess_move fen bestMove =
     chess_move fen (take 2 bestMove) (take 2 (drop 2 bestMove))
       (if length bestMove > 4 then Some (bestMove ! 4) else None)"

text \<open>
  The entry pushed for a scored record: the score is taken from the loss itself, and
  the loss is stored as \<open>Math.round(cpl)\<close>.
\<close>

definition score_move :: "nat \<Rightarrow> move_record \<Rightarrow> number \<Rightarrow> number \<Rightarrow> move_score" where
  "score_move i rec evalBest evalPlayed =
     (let c = centipawnLoss (turnBefore rec) evalBest evalPlayed
      in \<lparr>idx = i + 1, move = moveSan rec, cpl = math_round c, score = cplToMoveScore c\<rparr>)"

text \<open>
  One pass of the loop body for the record at index \<open>i\<close>: an error when a wait times
  out, \<open>None\<close> when the body leaves through \<open>continue\<close>, else the entry it pushes.
\<close>

definition score_record ::
  "move_applier \<Rightarrow> nat \<Rightarrow> nat \<Rightarrow> move_record \<Rightarrow> engine
   \<Rightarrow> (error + move_score option) \<times> engine" where
  "score_record chess_move depth i rec e =
     (case waitForLineMatching (prefix ''bestmove'')
             (send (go_depth depth) (send (position_fen (fromFen rec)) e)) of
        (Inl err, e1) \<Rightarrow> (Inl err, e1)
      | (Inr bestMoveLine, e1) \<Rightarrow>
          (case bestMoveUci bestMoveLine of
             None \<Rightarrow> (Inr None, e1)
           | Some bestMove \<Rightarrow>
               (case apply_suggestion chess_move (fromFen rec) bestMove of
                  None \<Rightarrow> (Inr None, e1)
                | Some fenAfterBest \<Rightarrow>
                    (case evalPosition fenAfterBest depth e1 of
                       (Inl err, e2) \<Rightarrow> (Inl err, e2)
                     | (Inr evalBest, e2) \<Rightarrow>
                         (case evalPosition (toFen rec) depth e2 of
                            (Inl err, e3) \<Rightarrow> (Inl err, e3)
                          | (Inr evalPlayed, e3) \<Rightarrow>
                              (Inr (Some (score_move i rec evalBest evalPlayed)), e3))))))"

text \<open>The loop \<open>for (let i = 0; i < moveRecords.length; i++)\<close>, from index \<open>i\<close> on.\<close>

fun score_records ::
  "move_applier \<Rightarrow> nat \<Rightarrow> nat \<Rightarrow> move_record list \<Rightarrow> move_score list \<Rightarrow> engine
   \<Rightarrow> (error + move_score list) \<times> engine" where
  "score_records chess_move depth i [] moveScores e = (Inr moveScores, e)"
| "score_records chess_move depth i (rec # recs) moveScores e =
     (case score_record chess_move depth i rec e of
        (Inl err, e1) \<Rightarrow> (Inl err, e1)
      | (Inr None, e1) \<Rightarrow> score_records chess_move depth (i + 1) recs moveScores e1
      | (Inr (Some moveScore), e1) \<Rightarrow>
          score_records chess_move depth (i + 1) recs (moveScores @ [moveScore]) e1)"

text \<open>
  \<open>analyze\<close> from the start of the engine to \<open>engine.quit()\<close>, and then its last
  lines, which turn the entries into the percentage.
\<close>

definition score_game ::
  "move_applier \<Rightarrow> move_record list \<Rightarrow> nat \<Rightarrow> string list
   \<Rightarrow> (error + move_score list) \<times> engine" where
  "score_game chess_move moveRecords depth lines =
     (case waitForLineMatching (\<lambda>l. l = ''readyok'')
             (send ''isready'' (sleep 200 (new_UciEngine lines))) of
        (Inl err, e1) \<Rightarrow> (Inl err, e1)
      | (Inr ready, e1) \<Rightarrow>
          (case score_records chess_move depth 0 moveRecords [] e1 of
             (Inl err, e2) \<Rightarrow> (Inl err, e2)
           | (Inr moveScores, e2) \<Rightarrow> (Inr moveScores, quit e2)))"

definition analyze ::
  "move_applier \<Rightarrow> move_record list \<Rightarrow> nat \<Rightarrow> string list \<Rightarrow> (error + rat) \<times> engine" where
  "analyze chess_move moveRecords depth lines =
     (case score_game chess_move moveRecords depth lines of
        (Inl err, e) \<Rightarrow> (Inl err, e)
      | (Inr moveScores, e) \<Rightarrow> (Inr (accuracy (map score moveScores)), e))"

section \<open>Notions used to state the properties\<close>

text \<open>The decimal numeral of an integer, as an engine prints a score.\<close>

definition dec_int :: "int \<Rightarrow> string" where
  "dec_int i = (if i < 0 then CHR ''-'' # dec_nat (nat (- i)) else dec_nat (nat i))"

text \<open>The text after a number does not go on with a digit.\<close>

definition not_digit_next :: "string \<Rightarrow> bool" where
  "not_digit_next rest = (case rest of [] \<Rightarrow> True | c # _ \<Rightarrow> \<not> is_digit c)"

text \<open>The score of the last line that parses as a score announcement.\<close>

definition last_announced :: "string list \<Rightarrow> number option" where
  "last_announced ls =
     (case filter (\<lambda>l. parseScoreFromInfoLine l \<noteq> None) ls of
        [] \<Rightarrow> None
      | x # xs \<Rightarrow> parseScoreFromInfoLine (last (x # xs)))"

text \<open>
  Single flight, read off a trace. A search request is the pair of a \<open>position\<close> and
  a \<open>go\<close> command; it is in flight from its \<open>position\<close> command until a line that
  starts with \<open>bestmove\<close> has been handed to the registered handler. The check fails
  when a \<open>position\<close> or \<open>go\<close> command is sent while a search is running, when a
  handler is registered while one is registered, or when a line is delivered to an
  empty slot.
\<close>

datatype phase = Idle | Positioned | Searching

fun flight_step :: "phase \<times> bool \<Rightarrow> event \<Rightarrow> (phase \<times> bool) option" where
  "flight_step (ph, waiting) (Send cmd) =
     (if prefix ''position '' cmd then (if ph = Idle then Some (Positioned, waiting) else None)
      else if prefix ''go '' cmd then (if ph = Positioned then Some (Searching, waiting) else None)
      else Some (ph, waiting))"
| "flight_step (ph, waiting) (Sleep ms) = Some (ph, waiting)"
| "flight_step (ph, waiting) Register = (if waiting then None else Some (ph, True))"
| "flight_step (ph, waiting) (Deliver l) =
     (if \<not> waiting then None
      else if ph = Searching \<and> prefix ''bestmove'' l then Some (Idle, waiting)
      else Some (ph, waiting))"
| "flight_step (ph, waiting) Clear = Some (ph, False)"

fun flight_run :: "phase \<times> bool \<Rightarrow> event list \<Rightarrow> (phase \<times> bool) option" where
  "flight_run s [] = Some s"
| "flight_run s (ev # evs) =
     (case flight_step s ev of None \<Rightarrow> None | Some s' \<Rightarrow> flight_run s' evs)"

definition single_flight :: "event list \<Rightarrow> bool" where
  "single_flight evs = (flight_run (Idle, False) evs \<noteq> None)"

text \<open>
  An evaluation in the mover's own perspective: the sign is flipped exactly when the
  mover was the second player, Black.
\<close>

definition perspective :: "side \<Rightarrow> number \<Rightarrow> number" where
  "perspective mover v = (if mover = B then nneg v else v)"

text \<open>\<open>max(0, x)\<close>, as \<open>Math.max\<close> has it: NaN for NaN.\<close>

fun max_zero :: "number \<Rightarrow> number" where
  "max_zero (Num a) = Num (max 0 a)"
| "max_zero PosInf = PosInf"
| "max_zero NegInf = Num 0"
| "max_zero NaN = NaN"

text \<open>
  A double whose value is an integer, or an infinity, or NaN: what a parsed score and
  everything computed from parsed scores is.
\<close>

definition is_double :: "rat \<Rightarrow> bool" where
  "is_double q = (to_double q = q \<and> \<bar>q\<bar> < overflow)"

fun integral :: "number \<Rightarrow> bool" where
  "integral (Num a) = (is_double a \<and> of_int \<lfloor>a\<rfloor> = a)"
| "integral PosInf = True"
| "integral NegInf = True"
| "integral NaN = True"

text \<open>
  Where the leftmost match of \<open>kw(-?\d+)\<close> starts in a line, if there is one: the
  first announcement of the kind \<open>kw\<close>.
\<close>

fun match_index :: "string \<Rightarrow> string \<Rightarrow> nat option" where
  "match_index kw [] = (if match_at kw [] = None then None else Some 0)"
| "match_index kw (c # cs) =
     (if match_at kw (c # cs) = None then map_option Suc (match_index kw cs) else Some 0)"

text \<open>The commands written to the engine, read off a trace.\<close>

fun sent :: "event list \<Rightarrow> string list" where
  "sent [] = []"
| "sent (Send cmd # evs) = cmd # sent evs"
| "sent (ev # evs) = sent evs"

text \<open>The running score of \<open>evalPosition\<close> after some lines, from \<open>acc\<close>.\<close>

definition keep_last :: "number option \<Rightarrow> string list \<Rightarrow> number option" where
  "keep_last acc ls = (case last_announced ls of Some v \<Rightarrow> Some v | None \<Rightarrow> acc)"

text \<open>The commands of a search request.\<close>

definition search_command :: "string \<Rightarrow> bool" where
  "search_command cmd = (prefix ''position fen '' cmd \<or> prefix ''go depth '' cmd)"

text \<open>What one rounding keeps of a value, at least: \<open>1 - 2^-53\<close> of it.\<close>

definition keep :: rat where
  "keep = 1 - 1 / 2 ^ 53"

text \<open>
  The arithmetic mean of the scores scaled to \<open>[0, 100]\<close>, in exact arithmetic, and
  what one rounding adds to a value, at most.
\<close>

definition mean_percentage :: "rat list \<Rightarrow> rat" where
  "mean_percentage scores = sum_list scores / of_nat (length scores) * 100"

definition gain :: rat where
  "gain = 1 + 1 / 2 ^ 53"

section \<open>A sample game\<close>

text \<open>
  Three records and a stand-in for chess.js that accepts two moves, \<open>e2\<close> to \<open>e4\<close>
  on the first position and \<open>e7\<close> to \<open>e5\<close> on the second; position names stand for
  FEN strings.
\<close>

definition sample_move :: move_applier where
  "sample_move fen from to promotion =
     (if fen = ''start'' \<and> from = ''e2'' \<and> to = ''e4'' \<and> promotion = None
      then Some ''after-e4''
      else if fen = ''after-e4'' \<and> from = ''e7'' \<and> to = ''e5'' \<and> promotion = None
      then Some ''after-e5''
      else None)"

definition first_record :: move_record where
  "first_record = \<lparr>moveSan = ''e4'', fromFen = ''start'', toFen = ''after-e4'', turnBefore = W\<rparr>"

definition reply_record :: move_record where
  "reply_record = \<lparr>moveSan = ''d6'', fromFen = ''after-e4'', toFen = ''after-d6'', turnBefore = B\<rparr>"

definition mated_record :: move_record where
  "mated_record = \<lparr>moveSan = ''Kh1'', fromFen = ''lost'', toFen = ''after-Kh1'', turnBefore = B\<rparr>"

text \<open>The lines of one scored record: the first search, then the two evaluations.\<close>

definition scored_lines :: "string list" where
  "scored_lines =
     [''info depth 18 score cp 31'', ''bestmove e2e4 ponder e7e5'',
      ''info depth 18 score cp 35'', ''bestmove e7e5'',
      ''info depth 18 score cp 15'', ''bestmove e7e5'']"

text \<open>The lines of Black's reply: the played move is 25 centipawns worse for Black.\<close>

definition reply_lines :: "string list" where
  "reply_lines =
     [''info depth 18 score cp 33'', ''bestmove e7e5 ponder g1f3'',
      ''info depth 18 score cp 35'', ''bestmove g1f3'',
      ''info depth 18 score cp 60'', ''bestmove d2d4'']"

text \<open>The lines of a record whose played move loses 335 centipawns.\<close>

definition blunder_lines :: "string list" where
  "blunder_lines =
     [''info depth 18 score cp 31'', ''bestmove e2e4 ponder e7e5'',
      ''info depth 18 score cp 35'', ''bestmove e7e5'',
      ''info depth 18 score cp -300'', ''bestmove e7e5'']"

text \<open>
  A position where a pawn promotes, and a stand-in for chess.js that accepts the
  promotion to a queen there.
\<close>

definition promotion_move :: move_applier where
  "promotion_move fen from to promotion =
     (if fen = ''pawn-on-e7'' \<and> from = ''e7'' \<and> to = ''e8'' \<and> promotion = Some CHR ''q''
      then Some ''queen-on-e8'' else None)"

definition promotion_record :: move_record where
  "promotion_record =
     \<lparr>moveSan = ''e8=Q'', fromFen = ''pawn-on-e7'', toFen = ''queen-on-e8'', turnBefore = W\<rparr>"

section \<open>Evaluating the rounding on numerals\<close>

lemma floor_rat_numeral_div [simp]:
  "\<lfloor>numeral a / numeral b :: rat\<rfloor> = numeral a div numeral b"
  using floor_divide_of_int_eq [of "numeral a" "numeral b", where ?'a = rat] by simp

lemma expo_hi_step: "2 \<le> q \<Longrightarrow> expo_hi q = expo_hi (q / 2) + 1"
  by (subst expo_hi.simps) simp

lemma expo_hi_stop: "q < 2 \<Longrightarrow> expo_hi q = 0"
  by (subst expo_hi.simps) simp

lemma expo_lo_step: "0 < q \<Longrightarrow> q < 1 \<Longrightarrow> expo_lo q = expo_lo (q * 2) - 1"
  by (subst expo_lo.simps) simp

lemma expo_lo_stop: "1 \<le> q \<Longrightarrow> expo_lo q = 0"
  by (subst expo_lo.simps) simp

lemmas dbl_eval = to_double_def Let_def pow2_def expo_def expo_hi_step expo_hi_stop
  expo_lo_step expo_lo_stop round_half_even_def dadd_def dmul_def ddiv_def

lemma double_0_95: "to_double (95 / 100) = 4278419646001971 / 4503599627370496"
  by (simp add: dbl_eval)

lemma double_0_80: "to_double (80 / 100) = 3602879701896397 / 4503599627370496"
  by (simp add: dbl_eval)

lemma double_0_60: "to_double (60 / 100) = 5404319552844595 / 9007199254740992"
  by (simp add: dbl_eval)

lemma double_0_30: "to_double (30 / 100) = 5404319552844595 / 18014398509481984"
  by (simp add: dbl_eval)

lemma double_0_10: "to_double (10 / 100) = 3602879701896397 / 36028797018963968"
  by (simp add: dbl_eval)

lemma double_literals_reduced:
  "to_double (19 / 20) = 4278419646001971 / 4503599627370496"
  "to_double (4 / 5) = 3602879701896397 / 4503599627370496"
  "to_double (3 / 5) = 5404319552844595 / 9007199254740992"
  "to_double (3 / 10) = 5404319552844595 / 18014398509481984"
  "to_double (1 / 10) = 3602879701896397 / 36028797018963968"
  using double_0_95 double_0_80 double_0_60 double_0_30 double_0_10 by simp_all

lemmas double_literals = double_0_95 double_0_80 double_0_60 double_0_30 double_0_10
  double_literals_reduced


section \<open>The step function from centipawn loss to move score\<close>

lemma cplToMoveScore_cases:
  "cplToMoveScore c \<in> {1, to_double (95 / 100), to_double (80 / 100), to_double (60 / 100),
     to_double (30 / 100), to_double (10 / 100)}"
  by (simp add: cplToMoveScore_def)

lemma cplToMoveScore_lower: "to_double (10 / 100) \<le> cplToMoveScore c"
  unfolding cplToMoveScore_def double_literals by simp

lemma cplToMoveScore_upper: "cplToMoveScore c \<le> 1"
  unfolding cplToMoveScore_def double_literals by simp

lemma nle_trans: "nle a b \<Longrightarrow> nle b c \<Longrightarrow> nle a c"
  by (cases a; cases b; cases c) simp_all

lemma cplToMoveScore_antimono:
  assumes "nle a b"
  shows "cplToMoveScore b \<le> cplToMoveScore a"
proof -
  have step: "nle a (Num k)" if "nle b (Num k)" for k
    using assms that by (rule nle_trans)
  show ?thesis
    unfolding cplToMoveScore_def double_literals using step by simp
qed

text \<open>
  C7. For every centipawn loss \<open>a \<ge> 0\<close> the mapping is non-increasing (a larger loss
  \<open>b\<close> never scores higher), its value lies in \<open>(0, 1]\<close>, and its steps are
  \<open>1.00\<close> up to 10, \<open>0.95\<close> up to 30, \<open>0.80\<close> up to 60, \<open>0.60\<close> up to 100,
  \<open>0.30\<close> up to 200 and \<open>0.10\<close> beyond, each literal being the double nearest to it.
  The losses are the values of the type \<open>number\<close>, the integers among them, compared
  as \<open><=\<close> compares them.
\<close>

theorem cplToMoveScore_step_function:
  assumes "nle (Num 0) a" and "nle a b"
  shows "cplToMoveScore b \<le> cplToMoveScore a
       \<and> 0 < cplToMoveScore a \<and> cplToMoveScore a \<le> 1
       \<and> cplToMoveScore a =
           (if nle a (Num 10) then 1
            else if nle a (Num 30) then to_double (95 / 100)
            else if nle a (Num 60) then to_double (80 / 100)
            else if nle a (Num 100) then to_double (60 / 100)
            else if nle a (Num 200) then to_double (30 / 100)
            else to_double (10 / 100))"
proof -
  have mono: "cplToMoveScore b \<le> cplToMoveScore a"
    using assms(2) by (rule cplToMoveScore_antimono)
  have "0 < to_double (10 / 100)" by (simp add: double_literals)
  then have pos: "0 < cplToMoveScore a"
    using cplToMoveScore_lower [of a] by linarith
  have steps: "cplToMoveScore a =
           (if nle a (Num 10) then 1
            else if nle a (Num 30) then to_double (95 / 100)
            else if nle a (Num 60) then to_double (80 / 100)
            else if nle a (Num 100) then to_double (60 / 100)
            else if nle a (Num 200) then to_double (30 / 100)
            else to_double (10 / 100))"
    by (simp add: cplToMoveScore_def)
  from mono pos cplToMoveScore_upper [of a] steps show ?thesis by blast
qed

theorem cplToMoveScore_step_function_witness:
  "nle (Num 0) (Num 25) \<and> nle (Num 25) (Num 150)
   \<and> cplToMoveScore (Num 150) \<le> cplToMoveScore (Num 25)
   \<and> 0 < cplToMoveScore (Num 25) \<and> cplToMoveScore (Num 25) \<le> 1
   \<and> cplToMoveScore (Num 25) = 4278419646001971 / 4503599627370496"
proof -
  have h1: "nle (Num 0) (Num 25)" and h2: "nle (Num 25) (Num 150)" by simp_all
  show ?thesis
    using cplToMoveScore_step_function [OF h1 h2] by (simp add: double_literals)
qed

section \<open>Rounding error of the double operations\<close>

subsection \<open>Powers of two\<close>

lemma pow2_pos [simp]: "0 < pow2 e"
  by (simp add: pow2_def)

lemma pow2_0 [simp]: "pow2 0 = 1"
  by (simp add: pow2_def)

lemma pow2_Suc: "pow2 (e + 1) = 2 * pow2 e"
proof (cases "0 \<le> e")
  case True
  then show ?thesis by (simp add: pow2_def nat_add_distrib)
next
  case False
  then have "nat (- e) = Suc (nat (- (e + 1)))" by simp
  then have "(2::rat) ^ nat (- e) = 2 * 2 ^ nat (- (e + 1))" by simp
  with False show ?thesis by (auto simp: pow2_def)
qed

lemma pow2_pred: "pow2 (e - 1) = pow2 e / 2"
  using pow2_Suc [of "e - 1"] by simp

lemma pow2_add_nat: "pow2 (e + int k) = 2 ^ k * pow2 e"
proof (induction k)
  case 0
  show ?case by simp
next
  case (Suc k)
  have "e + int (Suc k) = (e + int k) + 1" by simp
  then have "pow2 (e + int (Suc k)) = pow2 ((e + int k) + 1)" by (rule arg_cong)
  also have "\<dots> = 2 * pow2 (e + int k)" by (rule pow2_Suc)
  finally show ?case using Suc by simp
qed

lemma pow2_mono: "a \<le> b \<Longrightarrow> pow2 a \<le> pow2 b"
proof -
  assume "a \<le> b"
  then obtain k where "b = a + int k" by (metis zle_iff_zadd)
  then have "pow2 b = 2 ^ k * pow2 a" by (simp add: pow2_add_nat)
  moreover have "1 * pow2 a \<le> 2 ^ k * pow2 a"
    by (rule mult_right_mono) (simp_all add: less_imp_le)
  ultimately show ?thesis by simp
qed

lemma pow2_nat: "pow2 (int k) = 2 ^ k"
  by (simp add: pow2_def)

subsection \<open>The exponent\<close>

lemma expo_hi_bounds: "1 \<le> q \<Longrightarrow> pow2 (expo_hi q) \<le> q \<and> q < pow2 (expo_hi q + 1)"
proof (induction q rule: expo_hi.induct)
  case (1 q)
  show ?case
  proof (cases "2 \<le> q")
    case True
    then have "1 \<le> q / 2" by simp
    with 1 True have ih: "pow2 (expo_hi (q / 2)) \<le> q / 2 \<and> q / 2 < pow2 (expo_hi (q / 2) + 1)"
      by blast
    have e: "expo_hi q = expo_hi (q / 2) + 1" using True by (rule expo_hi_step)
    have "pow2 (expo_hi (q / 2) + 1) = 2 * pow2 (expo_hi (q / 2))"
      and "pow2 (expo_hi (q / 2) + 1 + 1) = 2 * pow2 (expo_hi (q / 2) + 1)"
      by (rule pow2_Suc)+
    with ih show ?thesis unfolding e by linarith
  next
    case False
    then have "expo_hi q = 0" by (intro expo_hi_stop) simp
    moreover have "pow2 (0 + 1) = 2" using pow2_Suc [of 0] by simp
    ultimately show ?thesis using False 1(2) by simp
  qed
qed

lemma expo_lo_bounds:
  "0 < q \<Longrightarrow> q < 1 \<Longrightarrow> pow2 (expo_lo q) \<le> q \<and> q < pow2 (expo_lo q + 1)"
proof (induction q rule: expo_lo.induct)
  case (1 q)
  have e: "expo_lo q = expo_lo (q * 2) - 1" using 1(2,3) by (rule expo_lo_step)
  have p: "pow2 (expo_lo (q * 2) - 1) = pow2 (expo_lo (q * 2)) / 2" by (rule pow2_pred)
  have p': "pow2 (expo_lo (q * 2) - 1 + 1) = pow2 (expo_lo (q * 2))" by simp
  show ?case
  proof (cases "q * 2 < 1")
    case True
    with 1 have ih: "pow2 (expo_lo (q * 2)) \<le> q * 2 \<and> q * 2 < pow2 (expo_lo (q * 2) + 1)"
      by simp
    have "pow2 (expo_lo (q * 2) + 1) = 2 * pow2 (expo_lo (q * 2))" by (rule pow2_Suc)
    with ih p show ?thesis unfolding e p' by linarith
  next
    case False
    then have z: "expo_lo (q * 2) = 0" by (intro expo_lo_stop) simp
    have "pow2 (0 - 1) = 1 / 2" using pow2_pred [of 0] by simp
    with False 1(3) show ?thesis unfolding e z by simp
  qed
qed

lemma expo_bounds:
  assumes "0 < q"
  shows "pow2 (expo q) \<le> q" and "q < pow2 (expo q + 1)"
  using assms expo_hi_bounds [of q] expo_lo_bounds [of q]
  by (auto simp: expo_def not_le)

subsection \<open>Rounding\<close>

lemma pow2_neq_0 [simp]: "pow2 e \<noteq> 0"
  using pow2_pos [of e] by linarith

lemma round_half_even_lower: "x - 1 / 2 \<le> of_int (round_half_even x)"
proof -
  have "x - of_int \<lfloor>x\<rfloor> < 1" by linarith
  then show ?thesis
    by (auto simp: round_half_even_def Let_def not_less)
qed

lemma round_half_even_le_int:
  assumes "x \<le> of_int y"
  shows "round_half_even x \<le> y"
proof (cases "x = of_int \<lfloor>x\<rfloor>")
  case True
  then have "round_half_even x = \<lfloor>x\<rfloor>" by (simp add: round_half_even_def Let_def)
  moreover have "\<lfloor>x\<rfloor> \<le> y" using assms by (simp add: floor_le_iff)
  ultimately show ?thesis by simp
next
  case False
  then have "of_int \<lfloor>x\<rfloor> < x" using of_int_floor_le [of x] by linarith
  with assms have "(of_int \<lfloor>x\<rfloor> :: rat) < of_int y" by linarith
  then have "\<lfloor>x\<rfloor> + 1 \<le> y" by simp
  moreover have "round_half_even x \<le> \<lfloor>x\<rfloor> + 1" by (simp add: round_half_even_def Let_def)
  ultimately show ?thesis by linarith
qed

lemma to_double_pos_unfold:
  "0 < q \<Longrightarrow> to_double q = of_int (round_half_even (q / pow2 (expo q - 52))) * pow2 (expo q - 52)"
  by (simp add: to_double_def Let_def)

lemma ulp_le:
  assumes "0 < q"
  shows "pow2 (expo q - 52) \<le> q / 2 ^ 52"
proof -
  have "pow2 (expo q - 52 + int 52) = 2 ^ 52 * pow2 (expo q - 52)" by (rule pow2_add_nat)
  moreover have "expo q - 52 + int 52 = expo q" by simp
  ultimately have "pow2 (expo q) = 2 ^ 52 * pow2 (expo q - 52)" by simp
  with expo_bounds(1) [OF assms] show ?thesis by (simp add: field_simps)
qed

lemma to_double_lower:
  assumes "0 \<le> q"
  shows "q * (1 - 1 / 2 ^ 53) \<le> to_double q"
proof (cases "q = 0")
  case True
  then show ?thesis by (simp add: to_double_def)
next
  case False
  with assms have pos: "0 < q" by simp
  let ?u = "pow2 (expo q - 52)"
  have u: "0 < ?u" by simp
  have "q / ?u - 1 / 2 \<le> of_int (round_half_even (q / ?u))" by (rule round_half_even_lower)
  then have "(q / ?u - 1 / 2) * ?u \<le> of_int (round_half_even (q / ?u)) * ?u"
    using u by (simp add: mult_right_mono less_imp_le)
  moreover have "(q / ?u - 1 / 2) * ?u = q - ?u / 2" using u by (simp add: field_simps)
  ultimately have "q - ?u / 2 \<le> to_double q" by (simp add: to_double_pos_unfold [OF pos])
  moreover have "?u / 2 \<le> q / 2 ^ 53" using ulp_le [OF pos] by simp
  ultimately show ?thesis by (simp add: field_simps)
qed

lemma to_double_nonneg: "0 \<le> q \<Longrightarrow> 0 \<le> to_double q"
proof -
  assume q: "0 \<le> q"
  have "0 \<le> q * (1 - 1 / 2 ^ 53)" using q by simp
  with to_double_lower [OF q] show ?thesis by linarith
qed

lemma to_double_le_nat:
  assumes "0 \<le> q" and "q \<le> of_nat k" and "k < 2 ^ 53"
  shows "to_double q \<le> of_nat k"
proof (cases "q = 0")
  case True
  then show ?thesis by (simp add: to_double_def)
next
  case False
  with assms have pos: "0 < q" by simp
  let ?u = "pow2 (expo q - 52)"
  have u: "0 < ?u" by simp
  have "expo q < 53"
  proof (rule ccontr)
    assume "\<not> expo q < 53"
    then have "pow2 53 \<le> pow2 (expo q)" by (intro pow2_mono) simp
    moreover have "pow2 53 = 2 ^ 53" using pow2_nat [of 53] by simp
    moreover have "(of_nat k :: rat) < of_nat (2 ^ 53)"
      using assms(3) by (simp only: of_nat_less_iff)
    then have "(of_nat k :: rat) < 2 ^ 53" by simp
    ultimately show False using expo_bounds(1) [OF pos] assms(2) by linarith
  qed
  define j where "j = nat (52 - expo q)"
  have j: "expo q - 52 + int j = 0" using \<open>expo q < 53\<close> by (simp add: j_def)
  have "pow2 (expo q - 52 + int j) = 2 ^ j * ?u" by (rule pow2_add_nat)
  with j have uj: "2 ^ j * ?u = 1" by simp
  then have inv: "1 / ?u = 2 ^ j" using u by (simp add: field_simps)
  have "q / ?u \<le> of_nat k / ?u" using assms(2) u by (simp add: divide_right_mono less_imp_le)
  also have "of_nat k / ?u = of_int (int k * 2 ^ j)" using inv by (simp add: field_simps)
  finally have "round_half_even (q / ?u) \<le> int k * 2 ^ j" by (rule round_half_even_le_int)
  then have "(of_int (round_half_even (q / ?u)) :: rat) \<le> of_int (int k * 2 ^ j)"
    by (simp only: of_int_le_iff)
  then have "of_int (round_half_even (q / ?u)) * ?u \<le> of_int (int k * 2 ^ j) * ?u"
    using u by (simp add: mult_right_mono less_imp_le)
  also have "of_int (int k * 2 ^ j) * ?u = of_nat k * (2 ^ j * ?u)" by simp
  also have "\<dots> = of_nat k" by (simp only: uj mult_1_right)
  finally show ?thesis by (simp add: to_double_pos_unfold [OF pos])
qed

subsection \<open>Sums and means in double arithmetic\<close>

lemma bernoulli_rat:
  fixes x :: rat
  assumes "0 \<le> x" and "x \<le> 1"
  shows "1 - of_nat m * x \<le> (1 - x) ^ m"
proof (induction m)
  case 0
  show ?case by simp
next
  case (Suc m)
  have "(1 - of_nat m * x) * (1 - x) \<le> (1 - x) ^ m * (1 - x)"
    using Suc assms(2) by (intro mult_right_mono) simp_all
  moreover have "1 - of_nat (Suc m) * x \<le> (1 - of_nat m * x) * (1 - x)"
  proof -
    have "(1 - of_nat m * x) * (1 - x) = 1 - of_nat (Suc m) * x + of_nat m * (x * x)"
      by (simp add: algebra_simps)
    moreover have "0 \<le> of_nat m * (x * x)" using assms(1) by simp
    ultimately show ?thesis by linarith
  qed
  ultimately have "1 - of_nat (Suc m) * x \<le> (1 - x) ^ m * (1 - x)" by (rule order_trans [rotated])
  then show ?case by (simp add: mult.commute)
qed

lemma keep_bounds: "0 \<le> keep" "keep \<le> 1"
  by (simp_all add: keep_def)

lemma to_double_keep: "0 \<le> q \<Longrightarrow> q * keep \<le> to_double q"
  unfolding keep_def by (rule to_double_lower)

lemma foldl_dadd_lower:
  assumes "\<forall>s \<in> set ss. d \<le> s" and "0 \<le> d" and "0 \<le> a"
  shows "(a + of_nat (length ss) * d) * keep ^ length ss \<le> foldl dadd a ss"
  using assms
proof (induction ss arbitrary: a)
  case Nil
  then show ?case by simp
next
  case (Cons s ss)
  let ?c = "keep"
  let ?n = "of_nat (length ss) :: rat"
  note c = keep_bounds
  have s: "d \<le> s" using Cons.prems(1) by simp
  have as: "0 \<le> a + s" using s Cons.prems(2,3) by linarith
  have r: "(a + s) * ?c \<le> dadd a s" unfolding dadd_def by (rule to_double_keep [OF as])
  have nn: "0 \<le> dadd a s" unfolding dadd_def by (rule to_double_nonneg [OF as])
  have ih: "(dadd a s + ?n * d) * ?c ^ length ss \<le> foldl dadd (dadd a s) ss"
    using Cons.IH [of "dadd a s"] Cons.prems nn by simp
  have "(a + d) * ?c \<le> (a + s) * ?c" using s c(1) by (intro mult_right_mono) simp_all
  moreover have "?n * d * ?c \<le> ?n * d"
    using c(2) Cons.prems(2) by (intro mult_left_le) simp_all
  ultimately have "(a + d) * ?c + ?n * d * ?c \<le> dadd a s + ?n * d" using r by linarith
  then have "((a + d) * ?c + ?n * d * ?c) * ?c ^ length ss \<le> (dadd a s + ?n * d) * ?c ^ length ss"
    using c(1) by (intro mult_right_mono) simp_all
  moreover have "((a + d) * ?c + ?n * d * ?c) * ?c ^ length ss
                 = (a + of_nat (length (s # ss)) * d) * ?c ^ length (s # ss)"
    by (simp add: algebra_simps)
  ultimately show ?case using ih by simp
qed

lemma foldl_dadd_upper:
  assumes "\<forall>s \<in> set ss. 0 \<le> s \<and> s \<le> 1" and "0 \<le> a" and "a \<le> of_nat j"
    and "j + length ss < 2 ^ 53"
  shows "foldl dadd a ss \<le> of_nat (j + length ss)"
  using assms
proof (induction ss arbitrary: a j)
  case Nil
  then show ?case by simp
next
  case (Cons s ss)
  have s: "0 \<le> s" "s \<le> 1" using Cons.prems(1) by simp_all
  have as: "0 \<le> a + s" using s Cons.prems(2) by linarith
  have le: "a + s \<le> of_nat (Suc j)" using s Cons.prems(3) by simp
  have lt: "Suc j < 2 ^ 53" using Cons.prems(4) by simp
  have "dadd a s \<le> of_nat (Suc j)" unfolding dadd_def by (rule to_double_le_nat [OF as le lt])
  moreover have "0 \<le> dadd a s" unfolding dadd_def by (rule to_double_nonneg [OF as])
  moreover have "Suc j + length ss < 2 ^ 53" using Cons.prems(4) by simp
  ultimately have "foldl dadd (dadd a s) ss \<le> of_nat (Suc j + length ss)"
    using Cons.IH [of "dadd a s" "Suc j"] Cons.prems(1) by simp
  then show ?case by simp
qed

lemma accuracy_upper:
  assumes "\<forall>s \<in> set scores. 0 \<le> s \<and> s \<le> 1" and "length scores < 2 ^ 53"
  shows "accuracy scores \<le> 100"
proof (cases "scores = []")
  case True
  then show ?thesis by (simp add: accuracy_def)
next
  case False
  let ?n = "of_nat (length scores) :: rat"
  let ?S = "foldl dadd 0 scores"
  have n: "0 < ?n" using False by simp
  have S0: "0 \<le> ?S"
    using foldl_dadd_lower [of scores 0 0] assms(1) by simp
  have "?S \<le> of_nat (0 + length scores)"
    using assms by (intro foldl_dadd_upper) simp_all
  then have q: "?S / ?n \<le> of_nat 1" using n by (simp add: field_simps)
  have q0: "0 \<le> ?S / ?n" using S0 n by simp
  have avg: "ddiv ?S ?n \<le> of_nat 1"
    unfolding ddiv_def by (rule to_double_le_nat [OF q0 q]) simp
  have avg0: "0 \<le> ddiv ?S ?n" unfolding ddiv_def by (rule to_double_nonneg [OF q0])
  have "ddiv ?S ?n * 100 \<le> of_nat 100" using avg by simp
  moreover have "0 \<le> ddiv ?S ?n * 100" using avg0 by simp
  ultimately have "dmul (ddiv ?S ?n) 100 \<le> of_nat 100"
    unfolding dmul_def by (intro to_double_le_nat) simp_all
  then show ?thesis using False by (simp add: accuracy_def)
qed

lemma accuracy_lower:
  assumes "scores \<noteq> []" and "\<forall>s \<in> set scores. 1 / 10 \<le> s"
  shows "10 * (1 - (of_nat (length scores) + 2) / 2 ^ 53) \<le> accuracy scores"
proof -
  let ?c = "keep"
  let ?k = "length scores"
  let ?n = "of_nat ?k :: rat"
  let ?S = "foldl dadd 0 scores"
  have c: "0 \<le> ?c" by (rule keep_bounds)
  have n: "0 < ?n" using assms(1) by simp
  have "(0 + ?n * (1 / 10)) * ?c ^ ?k \<le> ?S"
    using assms(2) by (intro foldl_dadd_lower) simp_all
  then have S: "?n * ((1 / 10) * ?c ^ ?k) \<le> ?S" by (simp add: algebra_simps)
  have S0: "0 \<le> ?S" using foldl_dadd_lower [of scores 0 0] assms(2) by force
  have "?n * ((1 / 10) * ?c ^ ?k) / ?n \<le> ?S / ?n"
    using S n by (intro divide_right_mono) simp_all
  then have q: "(1 / 10) * ?c ^ ?k \<le> ?S / ?n" using n by simp
  have q0: "0 \<le> ?S / ?n" using S0 n by simp
  have "?S / ?n * ?c \<le> ddiv ?S ?n" unfolding ddiv_def by (rule to_double_keep [OF q0])
  moreover have "(1 / 10) * ?c ^ ?k * ?c \<le> ?S / ?n * ?c"
    using q c by (intro mult_right_mono) simp_all
  ultimately have avg': "(1 / 10) * ?c ^ ?k * ?c \<le> ddiv ?S ?n" by linarith
  have e1: "(1 / 10) * ?c ^ ?k * ?c = (1 / 10) * ?c ^ Suc ?k" by simp
  have avg: "(1 / 10) * ?c ^ Suc ?k \<le> ddiv ?S ?n" using avg' unfolding e1 .
  have avg0: "0 \<le> ddiv ?S ?n * 100"
    using to_double_nonneg [OF q0] by (simp add: ddiv_def)
  have r2: "ddiv ?S ?n * 100 * ?c \<le> dmul (ddiv ?S ?n) 100"
    unfolding dmul_def by (rule to_double_keep [OF avg0])
  have m2: "(1 / 10) * ?c ^ Suc ?k * (100 * ?c) \<le> ddiv ?S ?n * (100 * ?c)"
    using avg c by (intro mult_right_mono) simp_all
  have e2: "ddiv ?S ?n * (100 * ?c) = ddiv ?S ?n * 100 * ?c" by simp
  have e3: "(1 / 10) * ?c ^ Suc ?k * (100 * ?c) = 10 * ?c ^ Suc (Suc ?k)" by simp
  have a1: "10 * ?c ^ Suc (Suc ?k) \<le> dmul (ddiv ?S ?n) 100"
    using m2 r2 unfolding e2 e3 by (rule order_trans)
  have "1 - of_nat (Suc (Suc ?k)) * (1 / 2 ^ 53) \<le> ?c ^ Suc (Suc ?k)"
    unfolding keep_def by (rule bernoulli_rat) simp_all
  then have "10 * (1 - of_nat (Suc (Suc ?k)) * (1 / 2 ^ 53)) \<le> 10 * ?c ^ Suc (Suc ?k)"
    by (intro mult_left_mono) simp_all
  from this a1 have a2: "10 * (1 - of_nat (Suc (Suc ?k)) * (1 / 2 ^ 53)) \<le> dmul (ddiv ?S ?n) 100"
    by (rule order_trans)
  have e4: "of_nat (Suc (Suc ?k)) * (1 / 2 ^ 53) = (?n + 2) / (2 ^ 53 :: rat)" by simp
  have acc: "accuracy scores = dmul (ddiv ?S ?n) 100" using assms(1) by (simp add: accuracy_def)
  show ?thesis using a2 unfolding e4 acc .
qed

subsection \<open>Doubles round to themselves\<close>

lemma round_half_even_of_int [simp]: "round_half_even (of_int z) = z"
  by (simp add: round_half_even_def Let_def)

lemma round_half_even_ge_int:
  assumes "of_int y \<le> x"
  shows "y \<le> round_half_even x"
proof -
  have "y \<le> \<lfloor>x\<rfloor>" using assms by (simp add: le_floor_iff)
  moreover have "\<lfloor>x\<rfloor> \<le> round_half_even x" by (simp add: round_half_even_def Let_def)
  ultimately show ?thesis by linarith
qed

lemma to_double_minus: "to_double (- q) = - to_double q"
  by (simp add: to_double_def Let_def sgn_minus)

lemma expo_unique:
  assumes "pow2 k \<le> q" and "q < pow2 (k + 1)"
  shows "expo q = k"
proof -
  have pos: "0 < q" using pow2_pos [of k] assms(1) by linarith
  note b = expo_bounds [OF pos]
  have "\<not> k + 1 \<le> expo q"
  proof
    assume "k + 1 \<le> expo q"
    then have "pow2 (k + 1) \<le> pow2 (expo q)" by (rule pow2_mono)
    with b(1) assms(2) show False by linarith
  qed
  moreover have "\<not> expo q + 1 \<le> k"
  proof
    assume "expo q + 1 \<le> k"
    then have "pow2 (expo q + 1) \<le> pow2 k" by (rule pow2_mono)
    with b(2) assms(1) show False by linarith
  qed
  ultimately show ?thesis by linarith
qed

lemma to_double_on_grid:
  assumes "0 < r" and "r / pow2 (expo r - 52) = of_int k"
  shows "to_double r = r"
proof -
  have "to_double r = of_int k * pow2 (expo r - 52)"
    by (simp add: to_double_pos_unfold [OF assms(1)] assms(2))
  also have "\<dots> = r / pow2 (expo r - 52) * pow2 (expo r - 52)" by (simp only: assms(2))
  also have "\<dots> = r" by simp
  finally show ?thesis .
qed

lemma pow2_52: "pow2 e = 2 ^ 52 * pow2 (e - 52)"
proof -
  have "pow2 (e - 52 + int 52) = 2 ^ 52 * pow2 (e - 52)" by (rule pow2_add_nat)
  moreover have "e - 52 + int 52 = e" by simp
  ultimately show ?thesis by simp
qed

lemma significand_bounds:
  assumes "0 < q"
  shows "2 ^ 52 \<le> q / pow2 (expo q - 52)" and "q / pow2 (expo q - 52) < 2 ^ 53"
proof -
  let ?u = "pow2 (expo q - 52)"
  have u: "0 < ?u" by simp
  have lo: "2 ^ 52 * ?u \<le> q" using expo_bounds(1) [OF assms] pow2_52 [of "expo q"] by simp
  have "pow2 (expo q + 1) = 2 * pow2 (expo q)" by (rule pow2_Suc)
  then have hi: "q < 2 ^ 53 * ?u"
    using expo_bounds(2) [OF assms] pow2_52 [of "expo q"] by simp
  show "2 ^ 52 \<le> q / ?u" using lo u by (simp add: pos_le_divide_eq)
  show "q / ?u < 2 ^ 53" using hi u by (simp add: pos_divide_less_eq)
qed

lemma to_double_idem: "to_double (to_double q) = to_double q"
proof (cases "q = 0")
  case True
  then show ?thesis by (simp add: to_double_def)
next
  case False
  define a where "a = \<bar>q\<bar>"
  have a: "0 < a" using False by (simp add: a_def)
  define u where "u = pow2 (expo a - 52)"
  define m where "m = round_half_even (a / u)"
  have u: "0 < u" by (simp add: u_def)
  have lo: "2 ^ 52 \<le> m"
    unfolding m_def u_def using significand_bounds(1) [OF a]
    by (intro round_half_even_ge_int) simp
  have hi: "m \<le> 2 ^ 53"
    unfolding m_def u_def using significand_bounds(2) [OF a]
    by (intro round_half_even_le_int) simp
  have ta: "to_double a = of_int m * u"
    by (simp add: to_double_pos_unfold [OF a] m_def u_def)
  have mpos: "(0::rat) < of_int m" using lo by simp
  have r: "0 < of_int m * u" using mpos u by simp
  have e52: "pow2 (expo a) = 2 ^ 52 * u" unfolding u_def by (rule pow2_52)
  have grid: "to_double (of_int m * u) = of_int m * u"
  proof (cases "m = 2 ^ 53")
    case True
    have val: "of_int m * u = pow2 (expo a + 1)"
      using e52 pow2_Suc [of "expo a"] True by simp
    have "pow2 (expo a + 1 + 1) = 2 * pow2 (expo a + 1)" by (rule pow2_Suc)
    then have "pow2 (expo a + 1) < pow2 (expo a + 1 + 1)"
      using pow2_pos [of "expo a + 1"] by linarith
    then have ex: "expo (of_int m * u) = expo a + 1"
      unfolding val by (intro expo_unique) simp_all
    have ex': "expo (of_int m * u) - 52 = expo a - 52 + 1" using ex by simp
    have "pow2 (expo (of_int m * u) - 52) = pow2 (expo a - 52 + 1)" by (simp only: ex')
    also have "\<dots> = 2 * pow2 (expo a - 52)" by (rule pow2_Suc)
    finally have den: "pow2 (expo (of_int m * u) - 52) = 2 * u" by (simp only: u_def)
    have mm: "(of_int m :: rat) = 2 * of_int (2 ^ 52)" using True by simp
    have "of_int m * u / (2 * u) = of_int (2 ^ 52)" using u unfolding mm by simp
    then have "of_int m * u / pow2 (expo (of_int m * u) - 52) = of_int (2 ^ 52)"
      unfolding den .
    with r show ?thesis by (rule to_double_on_grid)
  next
    case False
    with hi have "m < 2 ^ 53" by simp
    then have "(of_int m :: rat) < 2 ^ 53" by (metis of_int_less_iff of_int_numeral of_int_power)
    then have "of_int m * u < 2 ^ 53 * u" using u by simp
    moreover have "pow2 (expo a + 1) = 2 ^ 53 * u" using e52 pow2_Suc [of "expo a"] by simp
    ultimately have up: "of_int m * u < pow2 (expo a + 1)" by simp
    have "(2 ^ 52 :: rat) \<le> of_int m" using lo by (metis of_int_le_iff of_int_numeral of_int_power)
    then have "2 ^ 52 * u \<le> of_int m * u" using u by simp
    then have dn: "pow2 (expo a) \<le> of_int m * u" using e52 by simp
    have ex: "expo (of_int m * u) = expo a" using dn up by (rule expo_unique)
    have "pow2 (expo (of_int m * u) - 52) = u" unfolding ex by (simp only: u_def)
    then have "of_int m * u / pow2 (expo (of_int m * u) - 52) = of_int m"
      using u by simp
    with r show ?thesis by (rule to_double_on_grid)
  qed
  have pos_case: "to_double (to_double a) = to_double a" by (simp add: ta grid)
  show ?thesis
  proof (cases "0 < q")
    case True
    then have "a = q" by (simp add: a_def)
    with pos_case show ?thesis by simp
  next
    case neg: False
    with \<open>q \<noteq> 0\<close> have "q = - a" by (simp add: a_def)
    with pos_case show ?thesis by (simp add: to_double_minus)
  qed
qed

subsection \<open>Integers as doubles\<close>

lemma overflow_pos [simp]: "0 < overflow"
  by (simp add: overflow_def)

lemma overflow_above_53: "2 ^ 53 < overflow"
  by (simp add: overflow_def)

lemma to_double_nat_small:
  assumes "0 < n" and "n < 2 ^ 53"
  shows "to_double (of_nat n) = of_nat n"
proof -
  let ?a = "of_nat n :: rat"
  have a: "0 < ?a" using assms(1) by simp
  have lt: "?a < 2 ^ 53"
    using assms(2) by (metis of_nat_less_iff of_nat_numeral of_nat_power)
  have "expo ?a < 53"
  proof (rule ccontr)
    assume "\<not> expo ?a < 53"
    then have "pow2 53 \<le> pow2 (expo ?a)" by (intro pow2_mono) simp
    moreover have "pow2 53 = 2 ^ 53" using pow2_nat [of 53] by simp
    ultimately show False using expo_bounds(1) [OF a] lt by linarith
  qed
  define j where "j = nat (52 - expo ?a)"
  have j: "expo ?a - 52 + int j = 0" using \<open>expo ?a < 53\<close> by (simp add: j_def)
  have "pow2 (expo ?a - 52 + int j) = 2 ^ j * pow2 (expo ?a - 52)" by (rule pow2_add_nat)
  with j have uj: "2 ^ j * pow2 (expo ?a - 52) = 1" by simp
  then have inv: "1 / pow2 (expo ?a - 52) = 2 ^ j" by (simp add: field_simps)
  have "?a / pow2 (expo ?a - 52) = ?a * (1 / pow2 (expo ?a - 52))" by simp
  also have "\<dots> = of_int (int n * 2 ^ j)" unfolding inv by simp
  finally show ?thesis by (rule to_double_on_grid [OF a])
qed

lemma to_double_2_53: "to_double (2 ^ 53) = 2 ^ 53"
proof -
  have p53: "pow2 53 = 2 ^ 53" and p54: "pow2 54 = 2 ^ 54"
    using pow2_nat [of 53] pow2_nat [of 54] by simp_all
  have ex: "expo (2 ^ 53) = 53"
    by (rule expo_unique) (simp_all add: p53 p54)
  have "pow2 (53 - 52) = 2" using pow2_nat [of 1] by simp
  then have "(2 ^ 53 :: rat) / pow2 (expo (2 ^ 53) - 52) = of_int (2 ^ 52)"
    unfolding ex by simp
  then show ?thesis by (intro to_double_on_grid) simp_all
qed

lemma to_double_int_small:
  assumes "\<bar>n\<bar> \<le> 2 ^ 53"
  shows "to_double (of_int n) = of_int n"
proof -
  have nat_case: "to_double (of_nat k) = of_nat k" if "k \<le> 2 ^ 53" for k :: nat
  proof (cases "k = 0")
    case True
    then show ?thesis by (simp add: to_double_def)
  next
    case False
    show ?thesis
    proof (cases "k = 2 ^ 53")
      case True
      then show ?thesis using to_double_2_53 by simp
    next
      case neq: False
      with that False show ?thesis by (intro to_double_nat_small) simp_all
    qed
  qed
  have k: "nat \<bar>n\<bar> \<le> 2 ^ 53" using assms by (simp add: nat_le_iff)
  have abs_case: "to_double (of_int \<bar>n\<bar>) = of_int \<bar>n\<bar>"
    using nat_case [OF k] by simp
  show ?thesis
  proof (cases "0 \<le> n")
    case True
    with abs_case show ?thesis by simp
  next
    case False
    then have "of_int n = - (of_int \<bar>n\<bar> :: rat)" by simp
    then show ?thesis using abs_case by (simp only: to_double_minus)
  qed
qed

lemma to_double_of_nat_int: "\<exists>m. to_double (of_nat n) = of_int m"
proof (cases "n = 0")
  case True
  then show ?thesis by (simp add: to_double_def)
next
  case False
  let ?a = "of_nat n :: rat"
  have a: "0 < ?a" using False by simp
  show ?thesis
  proof (cases "expo ?a \<le> 52")
    case True
    define j where "j = nat (52 - expo ?a)"
    have j: "expo ?a - 52 + int j = 0" using True by (simp add: j_def)
    have "pow2 (expo ?a - 52 + int j) = 2 ^ j * pow2 (expo ?a - 52)" by (rule pow2_add_nat)
    with j have uj: "2 ^ j * pow2 (expo ?a - 52) = 1" by simp
    then have inv: "1 / pow2 (expo ?a - 52) = 2 ^ j" by (simp add: field_simps)
    have "?a / pow2 (expo ?a - 52) = ?a * (1 / pow2 (expo ?a - 52))" by simp
    also have "\<dots> = of_int (int n * 2 ^ j)" unfolding inv by simp
    finally have "to_double ?a = ?a" by (rule to_double_on_grid [OF a])
    then have "to_double ?a = of_int (int n)" by simp
    then show ?thesis ..
  next
    case False
    define j where "j = nat (expo ?a - 52)"
    have "expo ?a - 52 = int j" using False by (simp add: j_def)
    then have "pow2 (expo ?a - 52) = of_int (2 ^ j)" by (simp add: pow2_nat)
    then have "to_double ?a
               = of_int (round_half_even (?a / pow2 (expo ?a - 52)) * 2 ^ j)"
      by (simp add: to_double_pos_unfold [OF a])
    then show ?thesis ..
  qed
qed

lemma to_double_of_int_int: "\<exists>m. to_double (of_int n) = of_int m"
proof -
  obtain m where m: "to_double (of_nat (nat \<bar>n\<bar>)) = of_int m"
    using to_double_of_nat_int by blast
  have abs_case: "to_double (of_int \<bar>n\<bar>) = of_int m"
    using m by simp
  show ?thesis
  proof (cases "0 \<le> n")
    case True
    with abs_case have "to_double (of_int n) = of_int m" by simp
    then show ?thesis ..
  next
    case False
    then have "of_int n = - (of_int \<bar>n\<bar> :: rat)" by simp
    then have "to_double (of_int n) = of_int (- m)"
      using abs_case by (simp only: to_double_minus of_int_minus)
    then show ?thesis ..
  qed
qed

subsection \<open>Rounding with overflow\<close>

lemma round_number_minus: "round_number (- q) = nneg (round_number q)"
proof -
  have "\<not> (overflow \<le> to_double q \<and> to_double q \<le> - overflow)"
    using overflow_pos by linarith
  then show ?thesis
    by (auto simp: round_number_def Let_def to_double_minus)
qed

lemma round_number_Num: "round_number q = Num r \<Longrightarrow> is_double r"
  by (auto simp: round_number_def Let_def is_double_def to_double_idem abs_less_iff not_le
      split: if_splits)

lemma round_number_double: "is_double q \<Longrightarrow> round_number q = Num q"
  by (auto simp: round_number_def Let_def is_double_def abs_less_iff)

lemma round_number_int_small:
  assumes "\<bar>n\<bar> \<le> 2 ^ 53"
  shows "round_number (of_int n) = Num (of_int n)"
proof -
  have "\<bar>of_int n :: rat\<bar> = of_int \<bar>n\<bar>" by simp
  also have "\<dots> \<le> of_int (2 ^ 53)" using assms by (simp only: of_int_le_iff)
  finally have "\<bar>of_int n :: rat\<bar> < overflow" using overflow_above_53 by simp
  then have "is_double (of_int n)" by (simp add: is_double_def to_double_int_small [OF assms])
  then show ?thesis by (rule round_number_double)
qed

lemma integral_round_int: "integral (round_number (of_int n))"
proof (cases "round_number (of_int n)")
  case (Num r)
  obtain m where m: "to_double (of_int n) = of_int m" using to_double_of_int_int by blast
  have "r = to_double (of_int n)"
    using Num by (auto simp: round_number_def Let_def split: if_splits)
  then have "of_int \<lfloor>r\<rfloor> = r" by (simp add: m)
  with round_number_Num [OF Num] show ?thesis by (simp add: Num)
qed simp_all

lemma integral_value: "integral (Num a) \<Longrightarrow> \<exists>n. a = of_int n"
  by (metis integral.simps(1))

lemma integral_nneg [simp]: "integral x \<Longrightarrow> integral (nneg x)"
proof (cases x)
  case (Num a)
  assume "integral x"
  then have d: "is_double a" and i: "of_int \<lfloor>a\<rfloor> = a" by (simp_all add: Num)
  have "is_double (- a)" using d by (simp add: is_double_def to_double_minus)
  moreover have "of_int \<lfloor>- a\<rfloor> = - a"
    using i by (metis floor_of_int of_int_minus)
  ultimately show ?thesis by (simp add: Num)
qed simp_all

lemma integral_nabs [simp]: "integral x \<Longrightarrow> integral (nabs x)"
proof (cases x)
  case (Num a)
  assume ix: "integral x"
  show ?thesis
  proof (cases "0 \<le> a")
    case True
    with ix show ?thesis by (simp add: Num)
  next
    case False
    then have "\<bar>a\<bar> = - a" by simp
    then show ?thesis using integral_nneg [OF ix] by (simp add: Num)
  qed
qed simp_all

lemma integral_nsub [simp]: "integral x \<Longrightarrow> integral y \<Longrightarrow> integral (nsub x y)"
proof (cases x; cases y)
  fix a b assume x: "x = Num a" and y: "y = Num b" and "integral x" "integral y"
  then obtain n m where "a = of_int n" "b = of_int m" by (metis integral_value)
  then have "a - b = of_int (n - m)" by simp
  then show "integral (nsub x y)" using integral_round_int [of "n - m"] by (simp add: x y)
qed simp_all

lemma integral_nmul [simp]: "integral x \<Longrightarrow> integral y \<Longrightarrow> integral (nmul x y)"
proof (cases x; cases y)
  fix a b assume x: "x = Num a" and y: "y = Num b" and "integral x" "integral y"
  then obtain n m where "a = of_int n" "b = of_int m" by (metis integral_value)
  then have "a * b = of_int (n * m)" by simp
  then show "integral (nmul x y)" using integral_round_int [of "n * m"] by (simp add: x y)
qed simp_all

lemma integral_int_small: "\<bar>n\<bar> \<le> 2 ^ 53 \<Longrightarrow> integral (Num (of_int n))"
  using integral_round_int [of n] by (simp add: round_number_int_small)

lemma integral_consts [simp]:
  "integral (Num 0)" "integral (Num 1)" "integral (Num (- 1))" "integral (Num 100000)"
  using integral_int_small [of 0] integral_int_small [of 1] integral_int_small [of "- 1"]
    integral_int_small [of 100000] by simp_all

lemma nmul_one: "integral x \<Longrightarrow> nmul x (Num 1) = x"
  by (cases x) (simp_all add: round_number_double)

lemma nmul_minus_one: "integral x \<Longrightarrow> nmul x (Num (- 1)) = nneg x"
proof (cases x)
  case (Num a)
  assume "integral x"
  then have "is_double a" by (simp add: Num)
  then have "round_number a = Num a" by (rule round_number_double)
  then show ?thesis using round_number_minus [of a] by (simp add: Num)
qed simp_all

lemma math_round_integral: "integral x \<Longrightarrow> math_round x = x"
proof (cases x)
  case (Num a)
  assume "integral x"
  then obtain n where a: "a = of_int n" using Num by (metis integral_value)
  have "\<lfloor>rat_of_int n + 1 / 2\<rfloor> = n" by (rule floor_unique) simp_all
  then show ?thesis unfolding Num a by (simp only: math_round.simps)
qed simp_all

lemma is_double_0 [simp]: "is_double 0"
  using integral_consts(1) by simp

lemma to_double_ge_pow2:
  assumes "pow2 k \<le> q"
  shows "pow2 k \<le> to_double q"
proof -
  have q: "0 < q" using pow2_pos [of k] assms by linarith
  have "k \<le> expo q"
  proof (rule ccontr)
    assume "\<not> k \<le> expo q"
    then have "pow2 (expo q + 1) \<le> pow2 k" by (intro pow2_mono) simp
    then show False using expo_bounds(2) [OF q] assms by linarith
  qed
  then have le: "pow2 k \<le> pow2 (expo q)" by (rule pow2_mono)
  define u where "u = pow2 (expo q - 52)"
  have u: "0 < u" unfolding u_def by (rule pow2_pos)
  have "of_int (2 ^ 52) \<le> q / u" using significand_bounds(1) [OF q] by (simp add: u_def)
  then have "2 ^ 52 \<le> round_half_even (q / u)" by (rule round_half_even_ge_int)
  then have "(of_int (2 ^ 52) :: rat) \<le> of_int (round_half_even (q / u))"
    by (simp only: of_int_le_iff)
  then have "of_int (2 ^ 52) * u \<le> of_int (round_half_even (q / u)) * u"
    using u by (simp only: mult_le_cancel_right_pos)
  moreover have "pow2 (expo q) = of_int (2 ^ 52) * u"
    using pow2_52 [of "expo q"] by (simp add: u_def)
  moreover have "to_double q = of_int (round_half_even (q / u)) * u"
    unfolding u_def by (rule to_double_pos_unfold [OF q])
  ultimately show ?thesis using le by linarith
qed

lemma round_number_overflow:
  assumes "overflow \<le> q"
  shows "round_number q = PosInf"
proof -
  have "overflow = pow2 1024" using pow2_nat [of 1024] by (simp add: overflow_def)
  then have "overflow \<le> to_double q" using to_double_ge_pow2 [of 1024 q] assms by simp
  then show ?thesis by (simp add: round_number_def)
qed

section \<open>Decimal numerals and the score expressions\<close>

lemma digit_char_props:
  assumes "d < 10"
  shows "is_digit (digit_char d)" "digit_val (digit_char d) = d"
proof -
  from assms have "d \<in> {0, 1, 2, 3, 4, 5, 6, 7, 8, 9}" by auto
  then show "is_digit (digit_char d)" "digit_val (digit_char d) = d"
    by (auto simp: digit_char_def is_digit_def digit_val_def)
qed

lemma dec_nat_digits: "list_all is_digit (dec_nat n)"
proof (induction n rule: dec_nat.induct)
  case (1 n)
  show ?case
  proof (cases "n < 10")
    case True
    then show ?thesis by (subst dec_nat.simps) (simp add: digit_char_props)
  next
    case False
    then show ?thesis using 1 by (subst dec_nat.simps) (simp add: digit_char_props)
  qed
qed

lemma dec_nat_nonempty: "dec_nat n \<noteq> []"
  by (subst dec_nat.simps) simp

lemma digits_value_snoc: "digits_value (ds @ [c]) = 10 * digits_value ds + digit_val c"
  by (simp add: digits_value_def)

lemma digits_value_dec_nat: "digits_value (dec_nat n) = n"
proof (induction n rule: dec_nat.induct)
  case (1 n)
  show ?case
  proof (cases "n < 10")
    case True
    then show ?thesis
      by (subst dec_nat.simps) (simp add: digits_value_def digit_char_props)
  next
    case False
    then have "digits_value (dec_nat (n div 10)) = n div 10" using 1 by simp
    with False show ?thesis
      by (subst dec_nat.simps) (simp add: digits_value_snoc digit_char_props)
  qed
qed

lemma dec_nat_all_digits: "c \<in> set (dec_nat n) \<Longrightarrow> is_digit c"
  using dec_nat_digits [of n] unfolding list_all_iff by blast

lemma hd_dec_nat_not_minus: "hd (dec_nat n) \<noteq> CHR ''-''"
proof -
  have "hd (dec_nat n) \<in> set (dec_nat n)" by (simp add: dec_nat_nonempty)
  then have "is_digit (hd (dec_nat n))" by (rule dec_nat_all_digits)
  then show ?thesis by (auto simp: is_digit_def)
qed

lemma nneg_nneg [simp]: "nneg (nneg x) = x"
  by (cases x) simp_all

lemma parseInt10_dec_int: "parseInt10 (dec_int i) = round_number (of_int i)"
proof (cases "i < 0")
  case True
  then show ?thesis
    by (simp add: parseInt10_def dec_int_def digits_value_dec_nat round_number_minus)
next
  case False
  then show ?thesis
    by (simp add: parseInt10_def dec_int_def dec_nat_nonempty hd_dec_nat_not_minus
        digits_value_dec_nat)
qed

lemma takeWhile_digits_append:
  "list_all is_digit ds \<Longrightarrow> not_digit_next rest \<Longrightarrow> takeWhile is_digit (ds @ rest) = ds"
  by (induction ds) (auto simp: not_digit_next_def split: list.splits)

lemma signed_number_dec_int:
  assumes "not_digit_next rest"
  shows "signed_number (dec_int i @ rest) = Some (dec_int i)"
proof (cases "i < 0")
  case True
  then show ?thesis
    using takeWhile_digits_append [OF dec_nat_digits assms, of "nat (- i)"]
    by (simp add: signed_number_def dec_int_def dec_nat_nonempty)
next
  case False
  have "dec_nat (nat i) @ rest \<noteq> []" by (simp add: dec_nat_nonempty)
  moreover have "hd (dec_nat (nat i) @ rest) \<noteq> CHR ''-''"
    using hd_dec_nat_not_minus [of "nat i"] by (simp add: dec_nat_nonempty)
  ultimately show ?thesis
    using False takeWhile_digits_append [OF dec_nat_digits assms, of "nat i"]
    by (simp add: signed_number_def dec_int_def dec_nat_nonempty)
qed

lemma dec_nat_small: "n < 10 \<Longrightarrow> dec_nat n = [digit_char n]"
  by (subst dec_nat.simps) simp

lemma dec_nat_large: "10 \<le> n \<Longrightarrow> dec_nat n = dec_nat (n div 10) @ [digit_char (n mod 10)]"
  by (subst dec_nat.simps) simp

lemmas dec_eval = dec_int_def dec_nat_small dec_nat_large digit_char_def

subsection \<open>Numbers that need no rounding\<close>

lemma round_number_numeral [simp]:
  "numeral k \<le> (9007199254740992 :: int) \<Longrightarrow> round_number (numeral k) = Num (numeral k)"
  using round_number_int_small [of "numeral k"] by simp

lemma round_number_neg_numeral [simp]:
  "numeral k \<le> (9007199254740992 :: int) \<Longrightarrow>
   round_number (- numeral k) = Num (- numeral k)"
  using round_number_int_small [of "- numeral k"] by simp

lemma round_number_0 [simp]: "round_number 0 = Num 0"
  using round_number_int_small [of 0] by simp

lemma round_number_1 [simp]: "round_number 1 = Num 1"
  using round_number_int_small [of 1] by simp

lemma round_number_neg_1 [simp]: "round_number (- 1) = Num (- 1)"
  using round_number_int_small [of "- 1"] by simp

text \<open>The first integer that is not a double, and the double it is read as.\<close>

lemma round_number_above_2_53: "round_number 9007199254740993 = Num 9007199254740992"
  by (simp add: round_number_def overflow_def dbl_eval)

lemmas parse_eval = parseScoreFromInfoLine_def match_at_def signed_number_def parseInt10_def
  digits_value_def digit_val_def is_digit_def Let_def

subsection \<open>Where the leftmost match is\<close>

lemma capture_after_at_index:
  "match_index kw s = Some k \<Longrightarrow> capture_after kw s = match_at kw (drop k s)"
proof (induction s arbitrary: k)
  case Nil
  then show ?case by (simp split: if_splits)
next
  case (Cons c cs)
  show ?case
  proof (cases "match_at kw (c # cs)")
    case None
    with Cons.prems obtain j where j: "match_index kw cs = Some j" and k: "k = Suc j"
      by auto
    show ?thesis using Cons.IH [OF j] None by (simp add: k)
  next
    case (Some g)
    with Cons.prems have "k = 0" by simp
    with Some show ?thesis by simp
  qed
qed

lemma capture_after_no_index: "match_index kw s = None \<Longrightarrow> capture_after kw s = None"
  by (induction s) (auto split: if_splits option.splits)

lemma match_at_here:
  assumes "not_digit_next rest"
  shows "match_at kw (kw @ dec_int i @ rest) = Some (dec_int i)"
  by (simp add: match_at_def signed_number_dec_int [OF assms])

lemma capture_first_announcement:
  assumes "match_index kw line = Some k" and "drop k line = kw @ dec_int n @ rest"
    and "not_digit_next rest"
  shows "capture_after kw line = Some (dec_int n)"
  unfolding capture_after_at_index [OF assms(1)] assms(2) by (rule match_at_here [OF assms(3)])

lemma mate_value_small:
  assumes "\<bar>n\<bar> \<le> 2 ^ 53"
  shows "nmul (if nle (Num 0) (Num (of_int n)) then Num 1 else Num (- 1))
              (nsub (Num 100000) (nabs (Num (of_int n))))
         = Num (of_int ((if 0 \<le> n then 1 else - 1) * (100000 - \<bar>n\<bar>)))"
proof -
  have m: "\<bar>100000 - \<bar>n\<bar>\<bar> \<le> 2 ^ 53" using assms by simp
  have "(100000 :: rat) - \<bar>of_int n\<bar> = of_int (100000 - \<bar>n\<bar>)" by simp
  then have sub: "nsub (Num 100000) (nabs (Num (of_int n))) = Num (of_int (100000 - \<bar>n\<bar>))"
    using round_number_int_small [OF m] by (simp only: nabs.simps nsub.simps)
  show ?thesis
  proof (cases "0 \<le> n")
    case True
    then show ?thesis
      unfolding sub using round_number_int_small [OF m] by simp
  next
    case False
    have m': "\<bar>- (100000 - \<bar>n\<bar>)\<bar> \<le> 2 ^ 53" using m by simp
    have "(- 1 :: rat) * of_int (100000 - \<bar>n\<bar>) = of_int (- (100000 - \<bar>n\<bar>))" by simp
    then have "nmul (Num (- 1)) (Num (of_int (100000 - \<bar>n\<bar>))) = Num (of_int (- (100000 - \<bar>n\<bar>)))"
      using round_number_int_small [OF m'] by (simp only: nmul.simps)
    with False show ?thesis unfolding sub by simp
  qed
qed

subsection \<open>What a score announcement parses to\<close>

text \<open>
  C2, as the code has it. The number after the first \<open>score cp\<close> of a line is read
  as the double nearest to it: as the integer \<open>n\<close> itself whenever \<open>|n| \<le> 2^53\<close>.
  A \<open>score mate\<close> announcement counts only in a line with no \<open>score cp\<close> announcement
  anywhere; then the number \<open>n\<close> after the first \<open>score mate\<close>, \<open>|n| \<le> 2^53\<close>, gives
  \<open>100000 - n\<close> for \<open>n \<ge> 0\<close>, zero included, and \<open>-(100000 - |n|)\<close> for \<open>n < 0\<close>.
  An announcement is the keyword with a decimal integer after it, and it is the first
  when the leftmost match of the expression starts at it.
\<close>

theorem parseScoreFromInfoLine_announcements:
  assumes "not_digit_next rest"
  shows "(match_index ''score cp '' line = Some k
            \<and> drop k line = ''score cp '' @ dec_int n @ rest \<longrightarrow>
          parseScoreFromInfoLine line = Some (round_number (of_int n))
          \<and> (\<bar>n\<bar> \<le> 2 ^ 53 \<longrightarrow> parseScoreFromInfoLine line = Some (Num (of_int n))))
       \<and> (match_index ''score cp '' line = None
            \<and> match_index ''score mate '' line = Some k
            \<and> drop k line = ''score mate '' @ dec_int n @ rest
            \<and> \<bar>n\<bar> \<le> 2 ^ 53 \<longrightarrow>
          parseScoreFromInfoLine line
          = Some (Num (of_int ((if 0 \<le> n then 1 else - 1) * (100000 - \<bar>n\<bar>)))))"
proof (intro conjI impI; (elim conjE)?)
  assume a: "match_index ''score cp '' line = Some k"
    "drop k line = ''score cp '' @ dec_int n @ rest"
  show cp: "parseScoreFromInfoLine line = Some (round_number (of_int n))"
    unfolding parseScoreFromInfoLine_def capture_first_announcement [OF a assms]
    by (simp add: parseInt10_dec_int)
  assume "\<bar>n\<bar> \<le> 2 ^ 53"
  then show "parseScoreFromInfoLine line = Some (Num (of_int n))"
    unfolding cp by (simp only: round_number_int_small)
next
  assume a: "match_index ''score cp '' line = None"
    "match_index ''score mate '' line = Some k"
    "drop k line = ''score mate '' @ dec_int n @ rest"
    and small: "\<bar>n\<bar> \<le> 2 ^ 53"
  have "parseScoreFromInfoLine line
        = Some (nmul (if nle (Num 0) (Num (of_int n)) then Num 1 else Num (- 1))
                     (nsub (Num 100000) (nabs (Num (of_int n)))))"
    unfolding parseScoreFromInfoLine_def capture_after_no_index [OF a(1)]
      capture_first_announcement [OF a(2,3) assms]
    by (simp add: parseInt10_dec_int Let_def round_number_int_small [OF small])
  then show "parseScoreFromInfoLine line
        = Some (Num (of_int ((if 0 \<le> n then 1 else - 1) * (100000 - \<bar>n\<bar>))))"
    by (simp only: mate_value_small [OF small])
qed

theorem parseScoreFromInfoLine_announcements_witness:
  "not_digit_next '' nodes 1''
   \<and> match_index ''score cp '' ''info depth 12 score cp 34 nodes 1'' = Some 14
   \<and> drop 14 ''info depth 12 score cp 34 nodes 1'' = ''score cp '' @ dec_int 34 @ '' nodes 1''
   \<and> parseScoreFromInfoLine ''info depth 12 score cp 34 nodes 1'' = Some (Num 34)
   \<and> match_index ''score cp '' ''info depth 12 score mate 3 nodes 1'' = None
   \<and> match_index ''score mate '' ''info depth 12 score mate 3 nodes 1'' = Some 14
   \<and> parseScoreFromInfoLine ''info depth 12 score mate 3 nodes 1'' = Some (Num 99997)
   \<and> match_index ''score cp '' ''info depth 12 score mate -2 nodes 1'' = None
   \<and> match_index ''score mate '' ''info depth 12 score mate -2 nodes 1'' = Some 14
   \<and> parseScoreFromInfoLine ''info depth 12 score mate -2 nodes 1'' = Some (Num (- 99998))"
proof -
  have h: "not_digit_next '' nodes 1''" by (simp add: not_digit_next_def is_digit_def)
  have d: "dec_int 34 = ''34''" "dec_int 3 = ''3''" "dec_int (- 2) = ''-2''"
    by (simp_all add: dec_eval)
  have i1: "match_index ''score cp '' ''info depth 12 score cp 34 nodes 1'' = Some 14"
    by (simp add: match_at_def signed_number_def is_digit_def)
  have i2: "match_index ''score cp '' ''info depth 12 score mate 3 nodes 1'' = None"
    "match_index ''score mate '' ''info depth 12 score mate 3 nodes 1'' = Some 14"
    by (simp_all add: match_at_def signed_number_def is_digit_def)
  have i3: "match_index ''score cp '' ''info depth 12 score mate -2 nodes 1'' = None"
    "match_index ''score mate '' ''info depth 12 score mate -2 nodes 1'' = Some 14"
    by (simp_all add: match_at_def signed_number_def is_digit_def)
  show ?thesis
    using parseScoreFromInfoLine_announcements [OF h,
        of "''info depth 12 score cp 34 nodes 1''" 14 34]
      parseScoreFromInfoLine_announcements [OF h,
        of "''info depth 12 score mate 3 nodes 1''" 14 3]
      parseScoreFromInfoLine_announcements [OF h,
        of "''info depth 12 score mate -2 nodes 1''" 14 "- 2"]
      h i1 i2 i3
    by (simp add: d)
qed

text \<open>
  Three lines on which the claim's words fail. Its formula \<open>sign(N) * (100000 - |N|)\<close>
  is \<open>0\<close> at \<open>N = 0\<close>, and the code, which tests \<open>mateDistance >= 0\<close>, answers
  \<open>100000\<close>. A centipawn value beyond \<open>2^53\<close> is not kept verbatim. And a mate
  announcement is passed over when a centipawn announcement stands anywhere in the
  line, before it or after it.
\<close>

theorem parseScoreFromInfoLine_mate_zero_counterexample:
  "parseScoreFromInfoLine ''info depth 20 score mate 0'' = Some (Num 100000)
   \<and> parseScoreFromInfoLine ''info depth 20 score mate 0''
       \<noteq> Some (Num (sgn 0 * (100000 - \<bar>0\<bar>)))
   \<and> parseScoreFromInfoLine ''info depth 12 score cp 9007199254740993''
       = Some (Num 9007199254740992)
   \<and> parseScoreFromInfoLine ''info depth 5 score mate 3 score cp 5'' = Some (Num 5)"
  by (simp add: parse_eval round_number_above_2_53)

section \<open>The centipawn loss\<close>

lemma max_zero_clamp: "(if nlt c (Num 0) then Num 0 else c) = max_zero c"
  by (cases c) (auto simp: max_def)

lemma perspective_multiplier:
  "integral v \<Longrightarrow> nmul v (playerMultiplier t) = perspective t v"
  by (cases t) (simp_all add: playerMultiplier_def perspective_def nmul_one nmul_minus_one)

lemma centipawnLoss_max:
  assumes "integral eb" and "integral ep"
  shows "centipawnLoss t eb ep = max_zero (nsub (perspective t eb) (perspective t ep))"
  by (simp add: centipawnLoss_def Let_def perspective_multiplier [OF assms(1)]
      perspective_multiplier [OF assms(2)] max_zero_clamp)

lemma integral_perspective [simp]: "integral v \<Longrightarrow> integral (perspective t v)"
  by (simp add: perspective_def)

lemma integral_max_zero [simp]: "integral c \<Longrightarrow> integral (max_zero c)"
proof (cases c)
  case (Num a)
  assume "integral c"
  then show ?thesis using integral_consts(1) by (cases "0 \<le> a") (simp_all add: Num max_def)
qed (use integral_consts(1) in simp_all)

lemma max_zero_not_negative: "\<not> nlt (max_zero c) (Num 0)"
  by (cases c) simp_all

lemma max_zero_nonnegative: "max_zero c = NaN \<or> nle (Num 0) (max_zero c)"
  by (cases c) simp_all

lemma max_zero_NaN: "max_zero c = NaN \<longleftrightarrow> c = NaN"
  by (cases c) simp_all

lemma nsub_NaN:
  "nsub x y = NaN \<longleftrightarrow> x = NaN \<or> y = NaN \<or> (x = PosInf \<and> y = PosInf) \<or> (x = NegInf \<and> y = NegInf)"
  by (cases x; cases y) (simp_all add: round_number_def Let_def)

lemma nsub_exact:
  assumes "\<bar>x - y\<bar> \<le> 2 ^ 53"
  shows "nsub (Num (of_int x)) (Num (of_int y)) = Num (of_int (x - y))"
  using round_number_int_small [OF assms] by simp

subsection \<open>Scores are integers\<close>

lemma parseInt10_integral [simp]: "integral (parseInt10 s)"
proof -
  have "integral (round_number (of_nat n))" for n
    using integral_round_int [of "int n"] by simp
  then show ?thesis by (simp add: parseInt10_def)
qed

lemma parseScoreFromInfoLine_integral:
  "parseScoreFromInfoLine l = Some v \<Longrightarrow> integral v"
  by (auto simp: parseScoreFromInfoLine_def Let_def simp del: integral.simps(1)
      split: option.splits if_splits)

section \<open>The suggested move of a terminal line\<close>

lemmas bestmove_eval = bestMoveUci_def Let_def is_space_def is_file_def is_rank_def
  is_rank_or_promotion_def is_word_char_def word_boundary_def

section \<open>The score of one evaluation\<close>

lemma last_announced_Nil [simp]: "last_announced [] = None"
  by (simp add: last_announced_def)

lemma last_of_announcing:
  assumes "filter (\<lambda>l. parseScoreFromInfoLine l \<noteq> None) ls = x # xs"
  shows "parseScoreFromInfoLine (last (x # xs)) \<noteq> None"
proof -
  have "last (x # xs) \<in> set (filter (\<lambda>l. parseScoreFromInfoLine l \<noteq> None) ls)"
    unfolding assms by (rule last_in_set) simp
  then show ?thesis by simp
qed

lemma last_announced_Cons:
  "last_announced (l # ls) =
     (case last_announced ls of Some v \<Rightarrow> Some v | None \<Rightarrow> parseScoreFromInfoLine l)"
proof (cases "filter (\<lambda>l. parseScoreFromInfoLine l \<noteq> None) ls")
  case Nil
  then show ?thesis by (cases "parseScoreFromInfoLine l") (simp_all add: last_announced_def)
next
  case (Cons x xs)
  from last_of_announcing [OF Cons] obtain v where v: "parseScoreFromInfoLine (last (x # xs)) = Some v"
    by blast
  show ?thesis
    using Cons v by (cases "parseScoreFromInfoLine l") (simp_all add: last_announced_def)
qed

lemma keep_last_Cons:
  "keep_last acc (l # ls) =
     keep_last (case parseScoreFromInfoLine l of Some v \<Rightarrow> Some v | None \<Rightarrow> acc) ls"
  by (simp add: keep_last_def last_announced_Cons split: option.splits)

lemma eval_lines_terminal:
  assumes "\<forall>l \<in> set pre. \<not> prefix ''bestmove'' l" and "prefix ''bestmove'' t"
  shows "eval_lines acc (pre @ t # post)
         = (map Deliver (pre @ [t]) @ [Clear],
            Some (case keep_last acc (pre @ [t]) of None \<Rightarrow> Num 0 | Some v \<Rightarrow> v, post))"
  using assms
proof (induction pre arbitrary: acc)
  case Nil
  then show ?case by (simp add: keep_last_Cons) (simp add: keep_last_def)
next
  case (Cons l pre)
  then show ?case by (simp add: keep_last_Cons)
qed

lemma eval_lines_timeout:
  assumes "\<forall>l \<in> set ls. \<not> prefix ''bestmove'' l"
  shows "eval_lines acc ls = (map Deliver ls @ [Clear], None)"
  using assms by (induction ls arbitrary: acc) simp_all

lemma eval_lines_integral:
  assumes "eval_lines acc ls = (es, Some (v, rest))" and "\<And>a. acc = Some a \<Longrightarrow> integral a"
  shows "integral v"
  using assms
proof (induction ls arbitrary: acc es)
  case Nil
  then show ?case by simp
next
  case (Cons l ls)
  let ?acc = "case parseScoreFromInfoLine l of Some possible \<Rightarrow> Some possible | None \<Rightarrow> acc"
  have acc: "integral a" if "?acc = Some a" for a
    using that Cons.prems(2) parseScoreFromInfoLine_integral [of l]
    by (cases "parseScoreFromInfoLine l") simp_all
  show ?case
  proof (cases "prefix ''bestmove'' l")
    case True
    then have v: "v = (case ?acc of None \<Rightarrow> Num 0 | Some a \<Rightarrow> a)" using Cons.prems(1) by simp
    show ?thesis
    proof (cases ?acc)
      case None
      then show ?thesis unfolding v by simp
    next
      case (Some a)
      then show ?thesis unfolding v using acc by simp
    qed
  next
    case False
    then obtain es' where "eval_lines ?acc ls = (es', Some (v, rest))"
      using Cons.prems(1) by (auto split: prod.splits)
    then show ?thesis using acc by (rule Cons.IH)
  qed
qed

lemma evalPosition_integral:
  assumes "evalPosition fen depth e = (Inr v, e')"
  shows "integral v"
proof -
  obtain es x where a: "eval_lines None (incoming e) = (es, x)"
    by (cases "eval_lines None (incoming e)")
  from assms obtain rest where "x = Some (v, rest)"
    by (cases x) (auto simp: evalPosition_def send_def Let_def a)
  with a have "eval_lines None (incoming e) = (es, Some (v, rest))" by simp
  then show ?thesis by (rule eval_lines_integral) simp
qed

text \<open>
  C6, as the code has it. When the lines reaching \<open>evalPosition\<close> are \<open>pre\<close>, then
  the first line \<open>t\<close> that starts with \<open>bestmove\<close>, the evaluation succeeds with the
  score of the last line among \<open>pre\<close> and \<open>t\<close> that parses as a score announcement
  (a line of \<open>pre\<close> that does not parse leaves the running score as it was), and
  with \<open>0\<close> when none of them parses.
  The terminal line \<open>t\<close> counts: the handler parses every line before it tests for
  \<open>bestmove\<close>.
\<close>

theorem evalPosition_last_announced:
  assumes "incoming e = pre @ t # post"
    and "\<forall>l \<in> set pre. \<not> prefix ''bestmove'' l" and "prefix ''bestmove'' t"
  shows "fst (evalPosition fen depth e)
           = Inr (case last_announced (pre @ [t]) of None \<Rightarrow> Num 0 | Some v \<Rightarrow> v)
       \<and> incoming (snd (evalPosition fen depth e)) = post
       \<and> (\<forall>l \<in> set pre. parseScoreFromInfoLine l = None \<longrightarrow>
            (\<forall>lastScore ls. snd (eval_lines lastScore (l # ls)) = snd (eval_lines lastScore ls)))"
proof -
  have "fst (evalPosition fen depth e)
           = Inr (case last_announced (pre @ [t]) of None \<Rightarrow> Num 0 | Some v \<Rightarrow> v)
       \<and> incoming (snd (evalPosition fen depth e)) = post"
    using eval_lines_terminal [OF assms(2,3), of None post] assms(1)
    by (simp add: evalPosition_def send_def Let_def keep_last_def split: option.splits)
  moreover have "snd (eval_lines lastScore (l # ls)) = snd (eval_lines lastScore ls)"
    if "l \<in> set pre" "parseScoreFromInfoLine l = None" for l lastScore ls
    using that assms(2) by (auto split: prod.splits)
  ultimately show ?thesis by blast
qed

lemmas engine_eval = evalPosition_def waitForLineMatching_def send_def sleep_def quit_def
  new_UciEngine_def position_fen_def go_depth_def Let_def

theorem evalPosition_last_announced_witness:
  "fst (evalPosition ''fen'' 18
     \<lparr>incoming = [''info depth 1 score cp 20'', ''info string x'', ''bestmove e2e4'', ''later''],
      trace = []\<rparr>) = Inr (Num 20)"
proof -
  have h1: "incoming \<lparr>incoming = [''info depth 1 score cp 20'', ''info string x'', ''bestmove e2e4'', ''later''],
      trace = []\<rparr> = [''info depth 1 score cp 20'', ''info string x''] @ ''bestmove e2e4'' # [''later'']"
    by simp
  have h2: "\<forall>l \<in> set [''info depth 1 score cp 20'', ''info string x'']. \<not> prefix ''bestmove'' l"
    by simp
  have h3: "prefix ''bestmove'' ''bestmove e2e4''" by simp
  have v: "last_announced [''info depth 1 score cp 20'', ''info string x'', ''bestmove e2e4''] = Some (Num 20)"
    by (simp add: last_announced_def parse_eval)
  show ?thesis
    using evalPosition_last_announced [OF h1 h2 h3, of "''fen''" 18] by (simp add: v)
qed

text \<open>
  No line before the terminal line announces a score here, and the result is \<open>7\<close>,
  not \<open>0\<close>.
\<close>

theorem evalPosition_terminal_score_counterexample:
  "prefix ''bestmove'' ''bestmove e2e4 score cp 7''
   \<and> fst (evalPosition ''fen'' 18 \<lparr>incoming = [''bestmove e2e4 score cp 7''], trace = []\<rparr>) = Inr (Num 7)"
  by (simp add: engine_eval parse_eval)

section \<open>The loop over the move records\<close>

subsection \<open>The ways through the loop body\<close>

lemma score_record_cases [consumes 1, case_names no_bestmove no_suggestion not_applicable
    best_timeout played_timeout scored]:
  assumes "score_record chess_move depth i rec e = (r, e')"
  obtains
    err where "waitForLineMatching (prefix ''bestmove'')
             (send (go_depth depth) (send (position_fen (fromFen rec)) e)) = (Inl err, e')"
      "r = Inl err"
  | l where "waitForLineMatching (prefix ''bestmove'')
             (send (go_depth depth) (send (position_fen (fromFen rec)) e)) = (Inr l, e')"
      "bestMoveUci l = None" "r = Inr None"
  | l bestMove where "waitForLineMatching (prefix ''bestmove'')
             (send (go_depth depth) (send (position_fen (fromFen rec)) e)) = (Inr l, e')"
      "bestMoveUci l = Some bestMove"
      "apply_suggestion chess_move (fromFen rec) bestMove = None" "r = Inr None"
  | l bestMove fenAfterBest e1 err where "waitForLineMatching (prefix ''bestmove'')
             (send (go_depth depth) (send (position_fen (fromFen rec)) e)) = (Inr l, e1)"
      "bestMoveUci l = Some bestMove"
      "apply_suggestion chess_move (fromFen rec) bestMove = Some fenAfterBest"
      "evalPosition fenAfterBest depth e1 = (Inl err, e')" "r = Inl err"
  | l bestMove fenAfterBest e1 evalBest e2 err where "waitForLineMatching (prefix ''bestmove'')
             (send (go_depth depth) (send (position_fen (fromFen rec)) e)) = (Inr l, e1)"
      "bestMoveUci l = Some bestMove"
      "apply_suggestion chess_move (fromFen rec) bestMove = Some fenAfterBest"
      "evalPosition fenAfterBest depth e1 = (Inr evalBest, e2)"
      "evalPosition (toFen rec) depth e2 = (Inl err, e')" "r = Inl err"
  | l bestMove fenAfterBest e1 evalBest e2 evalPlayed where "waitForLineMatching (prefix ''bestmove'')
             (send (go_depth depth) (send (position_fen (fromFen rec)) e)) = (Inr l, e1)"
      "bestMoveUci l = Some bestMove"
      "apply_suggestion chess_move (fromFen rec) bestMove = Some fenAfterBest"
      "evalPosition fenAfterBest depth e1 = (Inr evalBest, e2)"
      "evalPosition (toFen rec) depth e2 = (Inr evalPlayed, e')"
      "r = Inr (Some (score_move i rec evalBest evalPlayed))"
  using assms unfolding score_record_def
  by (auto split: prod.splits sum.splits option.splits)


subsection \<open>Scored records\<close>

lemma score_move_fields:
  "cpl (score_move i rec evalBest evalPlayed)
     = math_round (centipawnLoss (turnBefore rec) evalBest evalPlayed)"
  "score (score_move i rec evalBest evalPlayed)
     = cplToMoveScore (centipawnLoss (turnBefore rec) evalBest evalPlayed)"
  by (simp_all add: score_move_def Let_def)

lemma parseInt10_not_NaN [simp]: "parseInt10 s \<noteq> NaN"
proof -
  have a: "round_number q \<noteq> NaN" for q by (simp add: round_number_def Let_def)
  have "nneg (round_number q) \<noteq> NaN" for q using a [of "- q"] by (simp add: round_number_minus)
  with a show ?thesis by (simp add: parseInt10_def)
qed

lemma mate_value_not_NaN:
  assumes "d \<noteq> NaN"
  shows "nmul (if nle (Num 0) d then Num 1 else Num (- 1)) (nsub (Num 100000) (nabs d)) \<noteq> NaN"
proof (cases d)
  case (Num a)
  have r: "round_number q \<noteq> NaN" for q by (simp add: round_number_def Let_def)
  show ?thesis
  proof (cases "round_number (100000 - \<bar>a\<bar>)")
    case (Num b)
    then show ?thesis using \<open>d = Num a\<close> r by simp
  next
    case NaN
    then show ?thesis using r by simp
  qed (use \<open>d = Num a\<close> in simp_all)
qed (use assms in simp_all)

lemma parseScoreFromInfoLine_not_NaN: "parseScoreFromInfoLine l \<noteq> Some NaN"
  using mate_value_not_NaN [OF parseInt10_not_NaN]
  by (auto simp: parseScoreFromInfoLine_def Let_def split: option.splits)

lemma eval_lines_not_NaN:
  assumes "eval_lines acc ls = (es, Some (v, rest))" and "acc \<noteq> Some NaN"
  shows "v \<noteq> NaN"
  using assms
proof (induction ls arbitrary: acc es)
  case Nil
  then show ?case by simp
next
  case (Cons l ls)
  let ?acc = "case parseScoreFromInfoLine l of Some possible \<Rightarrow> Some possible | None \<Rightarrow> acc"
  have acc: "?acc \<noteq> Some NaN"
    using Cons.prems(2) parseScoreFromInfoLine_not_NaN [of l]
    by (cases "parseScoreFromInfoLine l") simp_all
  show ?case
  proof (cases "prefix ''bestmove'' l")
    case True
    then have v: "v = (case ?acc of None \<Rightarrow> Num 0 | Some a \<Rightarrow> a)" using Cons.prems(1) by simp
    show ?thesis using acc unfolding v by (cases ?acc) simp_all
  next
    case False
    then obtain es' where "eval_lines ?acc ls = (es', Some (v, rest))"
      using Cons.prems(1) by (auto split: prod.splits)
    then show ?thesis using acc by (rule Cons.IH)
  qed
qed

lemma evalPosition_not_NaN:
  assumes "evalPosition fen depth e = (Inr v, e')"
  shows "v \<noteq> NaN"
proof -
  obtain es x where a: "eval_lines None (incoming e) = (es, x)"
    by (cases "eval_lines None (incoming e)")
  from assms obtain rest where "x = Some (v, rest)"
    by (cases x) (auto simp: evalPosition_def send_def Let_def a)
  with a have "eval_lines None (incoming e) = (es, Some (v, rest))" by simp
  then show ?thesis by (rule eval_lines_not_NaN) simp
qed

lemma perspective_NaN [simp]: "perspective t v = NaN \<longleftrightarrow> v = NaN"
  by (cases v) (simp_all add: perspective_def)

text \<open>
  C1, as the code has it. When the first search of a record ends in a line with a
  suggestion that chess.js accepts, and both evaluations return, the loop body pushes
  an entry \<open>m\<close>, and its centipawn loss is \<open>max(0, evalBestPersp - evalPlayedPersp)\<close>
  with the subtraction of doubles: \<open>evalBest\<close> and \<open>evalPlayed\<close> are the results of
  the two evaluations, each taken in the mover's perspective (sign flipped exactly for
  Black). The loss is never below zero. It is the exact \<open>max(0, x - y)\<close> of the two
  integers whenever their difference is at most \<open>2^53\<close> in magnitude. It is NaN, and
  so not at least zero either, exactly when both evaluations are the same infinity.
\<close>

theorem centipawnLoss_of_scored_move:
  assumes "waitForLineMatching (prefix ''bestmove'')
             (send (go_depth depth) (send (position_fen (fromFen rec)) e))
           = (Inr bestMoveLine, e1)"
    and "bestMoveUci bestMoveLine = Some bestMove"
    and "apply_suggestion chess_move (fromFen rec) bestMove = Some fenAfterBest"
    and "evalPosition fenAfterBest depth e1 = (Inr evalBest, e2)"
    and "evalPosition (toFen rec) depth e2 = (Inr evalPlayed, e3)"
  shows "\<exists>m. score_record chess_move depth i rec e = (Inr (Some m), e3)
       \<and> cpl m = max_zero (nsub (perspective (turnBefore rec) evalBest)
                                 (perspective (turnBefore rec) evalPlayed))
       \<and> \<not> nlt (cpl m) (Num 0)
       \<and> (cpl m = NaN \<longleftrightarrow>
            perspective (turnBefore rec) evalBest = PosInf
              \<and> perspective (turnBefore rec) evalPlayed = PosInf
            \<or> perspective (turnBefore rec) evalBest = NegInf
              \<and> perspective (turnBefore rec) evalPlayed = NegInf)
       \<and> (cpl m = NaN \<or> nle (Num 0) (cpl m))
       \<and> (\<forall>x y. perspective (turnBefore rec) evalBest = Num (of_int x)
                \<and> perspective (turnBefore rec) evalPlayed = Num (of_int y)
                \<and> \<bar>x - y\<bar> \<le> 2 ^ 53 \<longrightarrow>
              cpl m = Num (of_int (max 0 (x - y))))"
proof -
  let ?t = "turnBefore rec"
  let ?d = "nsub (perspective ?t evalBest) (perspective ?t evalPlayed)"
  let ?m = "score_move i rec evalBest evalPlayed"
  have ib: "integral evalBest" and ip: "integral evalPlayed"
    by (rule evalPosition_integral [OF assms(4)], rule evalPosition_integral [OF assms(5)])
  have nb: "evalBest \<noteq> NaN" and np: "evalPlayed \<noteq> NaN"
    by (rule evalPosition_not_NaN [OF assms(4)], rule evalPosition_not_NaN [OF assms(5)])
  have run: "score_record chess_move depth i rec e = (Inr (Some ?m), e3)"
    using assms by (simp add: score_record_def)
  have "integral (max_zero ?d)" using ib ip by simp
  then have c: "cpl ?m = max_zero ?d"
    by (simp add: score_move_fields centipawnLoss_max [OF ib ip] math_round_integral)
  have nan: "cpl ?m = NaN \<longleftrightarrow>
            perspective ?t evalBest = PosInf \<and> perspective ?t evalPlayed = PosInf
            \<or> perspective ?t evalBest = NegInf \<and> perspective ?t evalPlayed = NegInf"
    unfolding c max_zero_NaN nsub_NaN using nb np by simp
  have exact: "cpl ?m = Num (of_int (max 0 (x - y)))"
    if "perspective ?t evalBest = Num (of_int x)" "perspective ?t evalPlayed = Num (of_int y)"
      "\<bar>x - y\<bar> \<le> 2 ^ 53" for x y
    unfolding c that(1,2) nsub_exact [OF that(3)] by (simp add: max_def)
  have neg: "\<not> nlt (cpl ?m) (Num 0)"
    unfolding c by (rule max_zero_not_negative)
  have nonneg: "cpl ?m = NaN \<or> nle (Num 0) (cpl ?m)"
    unfolding c by (rule max_zero_nonnegative)
  have all: "\<forall>x y. perspective ?t evalBest = Num (of_int x)
                \<and> perspective ?t evalPlayed = Num (of_int y)
                \<and> \<bar>x - y\<bar> \<le> 2 ^ 53 \<longrightarrow>
              cpl ?m = Num (of_int (max 0 (x - y)))"
    using exact by blast
  show ?thesis
    by (rule exI [of _ ?m]) (intro conjI run c neg nan nonneg all)
qed

theorem centipawnLoss_of_scored_move_witness:
  "bestMoveUci ''bestmove e7e5 ponder g1f3'' = Some ''e7e5''
   \<and> apply_suggestion sample_move (fromFen reply_record) ''e7e5'' = Some ''after-e5''
   \<and> max_zero (nsub (perspective B (Num 35)) (perspective B (Num 60))) = Num 25
   \<and> (case fst (score_record sample_move 18 1 reply_record
                   \<lparr>incoming = reply_lines, trace = []\<rparr>) of
         Inr (Some m) \<Rightarrow> cpl m = Num 25
       | _ \<Rightarrow> False)"
proof -
  let ?e = "\<lparr>incoming = reply_lines, trace = []\<rparr>"
  let ?w = "waitForLineMatching (prefix ''bestmove'')
              (send (go_depth 18) (send (position_fen (fromFen reply_record)) ?e))"
  let ?b = "evalPosition ''after-e5'' 18 (snd ?w)"
  let ?p = "evalPosition (toFen reply_record) 18 (snd ?b)"
  have h1: "?w = (Inr ''bestmove e7e5 ponder g1f3'', snd ?w)"
    by (simp add: prod_eq_iff waitForLineMatching_def send_def reply_lines_def)
  have h2: "bestMoveUci ''bestmove e7e5 ponder g1f3'' = Some ''e7e5''"
    by (simp add: bestmove_eval)
  have h3: "apply_suggestion sample_move (fromFen reply_record) ''e7e5'' = Some ''after-e5''"
    by (simp add: apply_suggestion_def sample_move_def reply_record_def)
  have h4: "?b = (Inr (Num 35), snd ?b)"
    by (simp add: prod_eq_iff waitForLineMatching_def evalPosition_def send_def Let_def
        reply_lines_def parse_eval)
  have h5: "?p = (Inr (Num 60), snd ?p)"
    by (simp add: prod_eq_iff waitForLineMatching_def evalPosition_def send_def Let_def
        reply_lines_def parse_eval)
  have t: "turnBefore reply_record = B" by (simp add: reply_record_def)
  have v: "max_zero (nsub (perspective B (Num 35)) (perspective B (Num 60))) = Num 25"
    by (simp add: perspective_def)
  from centipawnLoss_of_scored_move [OF h1 h2 h3 h4 h5, of 1] obtain m
    where "score_record sample_move 18 1 reply_record ?e = (Inr (Some m), snd ?p)"
      and "cpl m = max_zero (nsub (perspective B (Num 35)) (perspective B (Num 60)))"
    unfolding t by blast
  then have "fst (score_record sample_move 18 1 reply_record ?e) = Inr (Some m)"
    and "cpl m = Num 25" unfolding v by simp_all
  then show ?thesis using h2 h3 v by simp
qed

text \<open>
  Two scored records whose loss is not the claim's \<open>max(0, evalBestPersp -
  evalPlayedPersp)\<close>. White's best move evaluates at \<open>2^53\<close> and the played one at
  \<open>-1\<close>: the difference \<open>2^53 + 1\<close> is no double, and the loss is \<open>2^53\<close>. And both
  evaluations are a number of 310 digits, which is read as \<open>Infinity\<close>: the loss is
  \<open>Infinity - Infinity\<close>, NaN, which is not at least zero.
\<close>

theorem centipawnLoss_rounded_counterexample:
  "(case fst (score_record sample_move 18 0 first_record
                \<lparr>incoming = [''bestmove e2e4'',
                              ''info depth 18 score cp 9007199254740992'', ''bestmove e7e5'',
                              ''info depth 18 score cp -1'', ''bestmove d2d4''],
                 trace = []\<rparr>) of
      Inr (Some m) \<Rightarrow> cpl m = Num 9007199254740992
    | _ \<Rightarrow> False)
   \<and> max 0 (9007199254740992 - (- 1)) = (9007199254740993 :: int)
   \<and> (case fst (score_record sample_move 18 0 first_record
                \<lparr>incoming = [''bestmove e2e4'',
                              ''info depth 18 score cp 1000000000000000000000000000000000000000000000000000000000000000000000000000000000000000000000000000000000000000000000000000000000000000000000000000000000000000000000000000000000000000000000000000000000000000000000000000000000000000000000000000000000000000000000000000000000000000000000000000000000000000000000'', ''bestmove e7e5'',
                              ''info depth 18 score cp 1000000000000000000000000000000000000000000000000000000000000000000000000000000000000000000000000000000000000000000000000000000000000000000000000000000000000000000000000000000000000000000000000000000000000000000000000000000000000000000000000000000000000000000000000000000000000000000000000000000000000000000000'', ''bestmove d2d4''],
                 trace = []\<rparr>) of
      Inr (Some m) \<Rightarrow> cpl m = NaN \<and> \<not> nle (Num 0) (cpl m)
    | _ \<Rightarrow> False)"
proof -
  have big: "round_number 1000000000000000000000000000000000000000000000000000000000000000000000000000000000000000000000000000000000000000000000000000000000000000000000000000000000000000000000000000000000000000000000000000000000000000000000000000000000000000000000000000000000000000000000000000000000000000000000000000000000000000000000 = PosInf"
    by (rule round_number_overflow) (simp add: overflow_def)
  have a: "fst (score_record sample_move 18 0 first_record
                \<lparr>incoming = [''bestmove e2e4'',
                              ''info depth 18 score cp 9007199254740992'', ''bestmove e7e5'',
                              ''info depth 18 score cp -1'', ''bestmove d2d4''],
                 trace = []\<rparr>)
        = Inr (Some (score_move 0 first_record (Num 9007199254740992) (Num (- 1))))"
    by (simp add: score_record_def apply_suggestion_def waitForLineMatching_def
        evalPosition_def send_def Let_def sample_move_def first_record_def parse_eval
        bestmove_eval)
  have b: "fst (score_record sample_move 18 0 first_record
                \<lparr>incoming = [''bestmove e2e4'',
                              ''info depth 18 score cp 1000000000000000000000000000000000000000000000000000000000000000000000000000000000000000000000000000000000000000000000000000000000000000000000000000000000000000000000000000000000000000000000000000000000000000000000000000000000000000000000000000000000000000000000000000000000000000000000000000000000000000000000'', ''bestmove e7e5'',
                              ''info depth 18 score cp 1000000000000000000000000000000000000000000000000000000000000000000000000000000000000000000000000000000000000000000000000000000000000000000000000000000000000000000000000000000000000000000000000000000000000000000000000000000000000000000000000000000000000000000000000000000000000000000000000000000000000000000000'', ''bestmove d2d4''],
                 trace = []\<rparr>)
        = Inr (Some (score_move 0 first_record PosInf PosInf))"
    by (simp add: score_record_def apply_suggestion_def waitForLineMatching_def
        evalPosition_def send_def Let_def sample_move_def first_record_def parse_eval
        bestmove_eval big)
  have c: "cpl (score_move 0 first_record (Num 9007199254740992) (Num (- 1)))
           = Num 9007199254740992"
    by (simp add: score_move_def centipawnLoss_def playerMultiplier_def first_record_def
        Let_def round_number_above_2_53)
  have d: "cpl (score_move 0 first_record PosInf PosInf) = NaN"
    by (simp add: score_move_def centipawnLoss_def playerMultiplier_def first_record_def
        Let_def)
  show ?thesis unfolding a b by (simp add: c d)
qed

subsection \<open>The expression for the suggested move\<close>

text \<open>
  C10. The expression \<open>[a-h][1-8][a-h][1-8qrbn]?\<close> puts the destination rank and the
  promotion letter into one optional class. So a token that is no coordinate move,
  \<open>e2eq\<close>, is extracted as a suggested move, and the promotion \<open>e7e8q\<close>, which is
  one, is not: the record of a position where the engine suggests it is left unscored,
  although chess.js accepts the move. \<open>(none)\<close> is not extracted.
\<close>

theorem bestMoveUci_character_class_slip:
  "bestMoveUci ''bestmove e2eq'' = Some ''e2eq''
   \<and> bestMoveUci ''bestmove e7e8q'' = None
   \<and> apply_suggestion promotion_move ''pawn-on-e7'' ''e7e8q'' = Some ''queen-on-e8''
   \<and> fst (score_record promotion_move 18 0 promotion_record
            \<lparr>incoming = [''info depth 18 score cp 900'', ''bestmove e7e8q''], trace = []\<rparr>)
       = Inr None
   \<and> bestMoveUci ''bestmove (none)'' = None
   \<and> bestMoveUci ''bestmove e2e4 ponder e7e5'' = Some ''e2e4''"
  by (simp add: bestmove_eval score_record_def waitForLineMatching_def send_def
      apply_suggestion_def promotion_move_def promotion_record_def)

subsection \<open>Commands written by each operation\<close>

lemma sent_append [simp]: "sent (xs @ ys) = sent xs @ sent ys"
  by (induction xs rule: sent.induct) simp_all

lemma sent_await_line [simp]: "sent (fst (await_line p ls)) = []"
  by (induction ls) (auto split: prod.splits)

lemma sent_eval_lines [simp]: "sent (fst (eval_lines acc ls)) = []"
proof (induction ls arbitrary: acc)
  case Nil
  show ?case by simp
next
  case (Cons l ls)
  show ?case
    using Cons [of "case parseScoreFromInfoLine l of Some possible \<Rightarrow> Some possible | None \<Rightarrow> acc"]
    by (auto split: prod.splits)
qed

lemma sent_send [simp]: "sent (trace (send cmd e)) = sent (trace e) @ [cmd]"
  by (simp add: send_def)

lemma sent_sleep [simp]: "sent (trace (sleep ms e)) = sent (trace e)"
  by (simp add: sleep_def)

lemma sent_waitForLineMatching:
  assumes "waitForLineMatching p e = (r, e')"
  shows "sent (trace e') = sent (trace e)"
proof -
  obtain es x where a: "await_line p (incoming e) = (es, x)"
    by (cases "await_line p (incoming e)")
  have "sent es = []" using sent_await_line [of p "incoming e"] by (simp add: a)
  then show ?thesis using assms by (cases x) (auto simp: waitForLineMatching_def a)
qed

lemma sent_evalPosition:
  assumes "evalPosition fen depth e = (r, e')"
  shows "sent (trace e') = sent (trace e) @ [position_fen fen, go_depth depth]"
proof -
  obtain es x where a: "eval_lines None (incoming e) = (es, x)"
    by (cases "eval_lines None (incoming e)")
  have "sent es = []" using sent_eval_lines [of None "incoming e"] by (simp add: a)
  then show ?thesis using assms by (cases x) (auto simp: evalPosition_def send_def Let_def a)
qed

lemma search_command_intros [simp]:
  "search_command (position_fen fen)" "search_command (go_depth depth)"
  by (simp_all add: search_command_def position_fen_def go_depth_def)

lemma quit_not_search_command [simp]: "\<not> search_command ''quit''"
  by (simp add: search_command_def)

lemma sent_score_record:
  assumes "score_record chess_move depth i rec e = (r, e')"
  shows "\<exists>cmds. sent (trace e') = sent (trace e) @ cmds \<and> list_all search_command cmds"
  using assms
proof (cases rule: score_record_cases)
  case (no_bestmove err)
  then show ?thesis by (auto dest!: sent_waitForLineMatching)
next
  case (no_suggestion l)
  then show ?thesis by (auto dest!: sent_waitForLineMatching)
next
  case (not_applicable l bestMove)
  then show ?thesis by (auto dest!: sent_waitForLineMatching)
next
  case (best_timeout l bestMove fenAfterBest e1 err)
  then show ?thesis by (auto dest!: sent_waitForLineMatching sent_evalPosition)
next
  case (played_timeout l bestMove fenAfterBest e1 evalBest e2 err)
  then show ?thesis by (auto dest!: sent_waitForLineMatching sent_evalPosition)
next
  case (scored l bestMove fenAfterBest e1 evalBest e2 evalPlayed)
  then show ?thesis by (auto dest!: sent_waitForLineMatching sent_evalPosition)
qed

lemma sent_score_records:
  assumes "score_records chess_move depth i recs moveScores e = (r, e')"
  shows "\<exists>cmds. sent (trace e') = sent (trace e) @ cmds \<and> list_all search_command cmds"
  using assms
proof (induction recs arbitrary: i moveScores e)
  case Nil
  then show ?case by simp
next
  case (Cons rec recs)
  obtain r1 e1 where b: "score_record chess_move depth i rec e = (r1, e1)"
    by (cases "score_record chess_move depth i rec e")
  from sent_score_record [OF b] obtain c1
    where c1: "sent (trace e1) = sent (trace e) @ c1" "list_all search_command c1" by blast
  show ?case
  proof (cases r1)
    case (Inl err)
    then show ?thesis using Cons.prems b c1 by auto
  next
    case (Inr m)
    have "\<exists>ms. score_records chess_move depth (i + 1) recs ms e1 = (r, e')"
      using Cons.prems b Inr by (cases m) auto
    then obtain ms where "score_records chess_move depth (i + 1) recs ms e1 = (r, e')" ..
    from Cons.IH [OF this] obtain c2
      where "sent (trace e') = sent (trace e1) @ c2" "list_all search_command c2" by blast
    with c1 show ?thesis by auto
  qed
qed

subsection \<open>Unscored records\<close>

text \<open>
  C5. When the terminal line of a record's first search yields no suggested move, or
  chess.js rejects the suggestion on the pre-move position, the loop body leaves
  through \<open>continue\<close>: no error, no entry pushed, no command written to the engine
  beyond the \<open>position\<close> and \<open>go\<close> of that first search (so neither evaluation was
  started), and the loop goes on with the remaining records, in order, at the next
  index.
\<close>

theorem unscored_record_is_skipped:
  assumes "waitForLineMatching (prefix ''bestmove'')
             (send (go_depth depth) (send (position_fen (fromFen rec)) e))
           = (Inr bestMoveLine, e1)"
    and "bestMoveUci bestMoveLine = None
         \<or> (\<exists>bestMove. bestMoveUci bestMoveLine = Some bestMove
               \<and> apply_suggestion chess_move (fromFen rec) bestMove = None)"
  shows "score_record chess_move depth i rec e = (Inr None, e1)
       \<and> score_records chess_move depth i (rec # recs) moveScores e
           = score_records chess_move depth (i + 1) recs moveScores e1
       \<and> sent (trace e1) = sent (trace e) @ [position_fen (fromFen rec), go_depth depth]"
proof -
  have a: "score_record chess_move depth i rec e = (Inr None, e1)"
    using assms by (auto simp: score_record_def)
  have "sent (trace e1) = sent (trace e) @ [position_fen (fromFen rec), go_depth depth]"
    using sent_waitForLineMatching [OF assms(1)] by simp
  with a show ?thesis by simp
qed

subsection \<open>Ending the session\<close>

text \<open>
  C4, as the code has it. \<open>quit\<close> writes the \<open>quit\<close> command and sleeps 50 ms; it
  neither waits for the process to exit nor kills it. \<open>analyze\<close> calls it once, after
  the last record, when no wait has timed out: then the trace ends with the command
  and the sleep. When a wait times out, \<open>analyze\<close> fails and \<open>quit\<close> is never
  written.
\<close>

theorem quit_sent_only_after_the_last_record:
  assumes "analyze chess_move moveRecords depth lines = (r, e)"
  shows "case r of
           Inr accuracyPct \<Rightarrow>
             (\<exists>t. trace e = t @ [Send ''quit'', Sleep 50] \<and> ''quit'' \<notin> set (sent t))
         | Inl err \<Rightarrow> ''quit'' \<notin> set (sent (trace e))"
proof -
  let ?e0 = "send ''isready'' (sleep 200 (new_UciEngine lines))"
  have s0: "sent (trace ?e0) = [''uci'', ''isready'']"
    by (simp add: new_UciEngine_def)
  obtain r1 e1 where w: "waitForLineMatching (\<lambda>l. l = ''readyok'') ?e0 = (r1, e1)"
    by (cases "waitForLineMatching (\<lambda>l. l = ''readyok'') ?e0")
  have s1: "sent (trace e1) = [''uci'', ''isready'']"
    using sent_waitForLineMatching [OF w] s0 by simp
  show ?thesis
  proof (cases r1)
    case (Inl err)
    then show ?thesis using assms w s1 by (auto simp: analyze_def score_game_def)
  next
    case (Inr ready)
    obtain r2 e2 where l: "score_records chess_move depth 0 moveRecords [] e1 = (r2, e2)"
      by (cases "score_records chess_move depth 0 moveRecords [] e1")
    from sent_score_records [OF l] obtain cmds
      where c: "sent (trace e2) = sent (trace e1) @ cmds" "list_all search_command cmds" by blast
    have "''quit'' \<notin> set cmds"
      using c(2) quit_not_search_command unfolding list_all_iff by blast
    then have nq: "''quit'' \<notin> set (sent (trace e2))" using c(1) s1 by simp
    show ?thesis
    proof (cases r2)
      case (Inl err)
      then show ?thesis using assms w Inr l nq by (auto simp: analyze_def score_game_def)
    next
      case inr2: (Inr moveScores)
      then show ?thesis
        using assms w Inr l nq by (auto simp: analyze_def score_game_def quit_def send_def sleep_def)
    qed
  qed
qed

section \<open>Single flight\<close>

lemma flight_run_append:
  "flight_run s (xs @ ys) = (case flight_run s xs of None \<Rightarrow> None | Some s' \<Rightarrow> flight_run s' ys)"
  by (induction xs arbitrary: s) (simp_all split: option.splits)

lemma flight_run_prefix:
  assumes "flight_run s evs \<noteq> None" and "prefix p evs"
  shows "flight_run s p \<noteq> None"
proof -
  from assms(2) obtain rest where "evs = p @ rest" by (auto simp: prefix_def)
  with assms(1) show ?thesis by (auto simp: flight_run_append split: option.splits)
qed

lemma flight_await_idle:
  "flight_run (Idle, True) (fst (await_line p ls)) = Some (Idle, False)"
  by (induction ls) (auto split: prod.splits)

lemma flight_await_bestmove:
  "flight_run (Searching, True) (fst (await_line (prefix ''bestmove'') ls))
   = Some (if snd (await_line (prefix ''bestmove'') ls) = None then Searching else Idle, False)"
  by (induction ls) (auto split: prod.splits)

lemma flight_eval_lines:
  "flight_run (Searching, True) (fst (eval_lines acc ls))
   = Some (if snd (eval_lines acc ls) = None then Searching else Idle, False)"
proof (induction ls arbitrary: acc)
  case Nil
  show ?case by simp
next
  case (Cons l ls)
  show ?case
    using Cons [of "case parseScoreFromInfoLine l of Some possible \<Rightarrow> Some possible | None \<Rightarrow> acc"]
    by (auto split: prod.splits)
qed

lemma flight_position_go:
  assumes "flight_run s0 (trace e) = Some (Idle, False)"
  shows "flight_run s0 (trace (send (go_depth depth) (send (position_fen fen) e)))
         = Some (Searching, False)"
  using assms by (simp add: send_def flight_run_append position_fen_def go_depth_def)

lemma flight_wait_bestmove:
  assumes "waitForLineMatching (prefix ''bestmove'') e = (r, e')"
    and "flight_run s0 (trace e) = Some (Searching, False)"
  shows "flight_run s0 (trace e') = Some (if isl r then Searching else Idle, False)"
proof -
  obtain es x where a: "await_line (prefix ''bestmove'') (incoming e) = (es, x)"
    by (cases "await_line (prefix ''bestmove'') (incoming e)")
  have "flight_run (Searching, True) es = Some (if x = None then Searching else Idle, False)"
    using flight_await_bestmove [of "incoming e"] by (simp add: a)
  then show ?thesis
    using assms by (cases x) (auto simp: waitForLineMatching_def a flight_run_append)
qed

lemma flight_wait_idle:
  assumes "waitForLineMatching p e = (r, e')"
    and "flight_run s0 (trace e) = Some (Idle, False)"
  shows "flight_run s0 (trace e') = Some (Idle, False)"
proof -
  obtain es x where a: "await_line p (incoming e) = (es, x)"
    by (cases "await_line p (incoming e)")
  have "flight_run (Idle, True) es = Some (Idle, False)"
    using flight_await_idle [of p "incoming e"] by (simp add: a)
  then show ?thesis
    using assms by (cases x) (auto simp: waitForLineMatching_def a flight_run_append)
qed

lemma flight_evalPosition:
  assumes "evalPosition fen depth e = (r, e')"
    and "flight_run s0 (trace e) = Some (Idle, False)"
  shows "flight_run s0 (trace e') = Some (if isl r then Searching else Idle, False)"
proof -
  let ?e2 = "send (go_depth depth) (send (position_fen fen) e)"
  obtain es x where a: "eval_lines None (incoming e) = (es, x)"
    by (cases "eval_lines None (incoming e)")
  have inc: "incoming ?e2 = incoming e" by (simp add: send_def)
  have f2: "flight_run s0 (trace ?e2) = Some (Searching, False)"
    by (rule flight_position_go [OF assms(2)])
  have "flight_run (Searching, True) es = Some (if x = None then Searching else Idle, False)"
    using flight_eval_lines [of None "incoming e"] by (simp add: a)
  then show ?thesis
    using assms(1) f2
    by (cases x) (auto simp: evalPosition_def Let_def inc a flight_run_append)
qed

lemma flight_score_record:
  assumes "score_record chess_move depth i rec e = (r, e')"
    and "flight_run s0 (trace e) = Some (Idle, False)"
  shows "flight_run s0 (trace e') = Some (if isl r then Searching else Idle, False)"
  using assms(1)
proof (cases rule: score_record_cases)
  case (no_bestmove err)
  then show ?thesis
    using flight_wait_bestmove [OF no_bestmove(1) flight_position_go [OF assms(2)]] by simp
next
  case (no_suggestion l)
  then show ?thesis
    using flight_wait_bestmove [OF no_suggestion(1) flight_position_go [OF assms(2)]] by simp
next
  case (not_applicable l bestMove)
  then show ?thesis
    using flight_wait_bestmove [OF not_applicable(1) flight_position_go [OF assms(2)]] by simp
next
  case (best_timeout l bestMove fenAfterBest e1 err)
  have "flight_run s0 (trace e1) = Some (Idle, False)"
    using flight_wait_bestmove [OF best_timeout(1) flight_position_go [OF assms(2)]] by simp
  from flight_evalPosition [OF best_timeout(4) this] show ?thesis using best_timeout(5) by simp
next
  case (played_timeout l bestMove fenAfterBest e1 evalBest e2 err)
  have "flight_run s0 (trace e1) = Some (Idle, False)"
    using flight_wait_bestmove [OF played_timeout(1) flight_position_go [OF assms(2)]] by simp
  from flight_evalPosition [OF played_timeout(4) this]
  have "flight_run s0 (trace e2) = Some (Idle, False)" by simp
  from flight_evalPosition [OF played_timeout(5) this] show ?thesis using played_timeout(6) by simp
next
  case (scored l bestMove fenAfterBest e1 evalBest e2 evalPlayed)
  have "flight_run s0 (trace e1) = Some (Idle, False)"
    using flight_wait_bestmove [OF scored(1) flight_position_go [OF assms(2)]] by simp
  from flight_evalPosition [OF scored(4) this]
  have "flight_run s0 (trace e2) = Some (Idle, False)" by simp
  from flight_evalPosition [OF scored(5) this] show ?thesis using scored(6) by simp
qed

lemma flight_score_records:
  assumes "score_records chess_move depth i recs moveScores e = (r, e')"
    and "flight_run s0 (trace e) = Some (Idle, False)"
  shows "flight_run s0 (trace e') = Some (if isl r then Searching else Idle, False)"
  using assms
proof (induction recs arbitrary: i moveScores e)
  case Nil
  then show ?case by auto
next
  case (Cons rec recs)
  obtain r1 e1 where b: "score_record chess_move depth i rec e = (r1, e1)"
    by (cases "score_record chess_move depth i rec e")
  note f1 = flight_score_record [OF b Cons.prems(2)]
  show ?case
  proof (cases r1)
    case (Inl err)
    then show ?thesis using Cons.prems(1) b f1 by auto
  next
    case (Inr m)
    have "\<exists>ms. score_records chess_move depth (i + 1) recs ms e1 = (r, e')"
      using Cons.prems(1) b Inr by (cases m) auto
    then obtain ms where "score_records chess_move depth (i + 1) recs ms e1 = (r, e')" ..
    moreover have "flight_run s0 (trace e1) = Some (Idle, False)" using f1 Inr by simp
    ultimately show ?thesis by (rule Cons.IH)
  qed
qed

lemma flight_analyze:
  "flight_run (Idle, False) (trace (snd (analyze chess_move moveRecords depth lines))) \<noteq> None"
proof -
  let ?e0 = "send ''isready'' (sleep 200 (new_UciEngine lines))"
  have f0: "flight_run (Idle, False) (trace ?e0) = Some (Idle, False)"
    by (simp add: new_UciEngine_def send_def sleep_def)
  obtain r1 e1 where w: "waitForLineMatching (\<lambda>l. l = ''readyok'') ?e0 = (r1, e1)"
    by (cases "waitForLineMatching (\<lambda>l. l = ''readyok'') ?e0")
  note f1 = flight_wait_idle [OF w f0]
  show ?thesis
  proof (cases r1)
    case (Inl err)
    then show ?thesis using w f1 by (simp add: analyze_def score_game_def)
  next
    case (Inr ready)
    obtain r2 e2 where l: "score_records chess_move depth 0 moveRecords [] e1 = (r2, e2)"
      by (cases "score_records chess_move depth 0 moveRecords [] e1")
    note f2 = flight_score_records [OF l f1]
    show ?thesis
    proof (cases r2)
      case (Inl err)
      then show ?thesis using w Inr l f2 by (simp add: analyze_def score_game_def)
    next
      case inr2: (Inr moveScores)
      then show ?thesis
        using w Inr l f2
        by (simp add: analyze_def score_game_def quit_def send_def sleep_def flight_run_append)
    qed
  qed
qed

text \<open>
  C8. Every initial segment of the trace of an analysis, whatever the engine sends
  and whether or not a wait times out, passes the single-flight check: no
  \<open>position\<close> or \<open>go\<close> command is written while a search is running, that is before
  a \<open>bestmove\<close> line of the search before has been handed to the handler, and no
  handler is registered while another one is.
\<close>

theorem analysis_is_single_flight:
  assumes "prefix p (trace (snd (analyze chess_move moveRecords depth lines)))"
  shows "single_flight p"
  unfolding single_flight_def
  by (rule flight_run_prefix [OF flight_analyze assms])

section \<open>Runs of the sample game\<close>

lemmas loop_eval = score_record_def apply_suggestion_def score_move_def centipawnLoss_def
  playerMultiplier_def analyze_def score_game_def sample_move_def first_record_def mated_record_def
  scored_lines_def


theorem unscored_record_is_skipped_witness:
  "score_records sample_move 18 0 [mated_record, first_record] []
     \<lparr>incoming = ''bestmove (none)'' # scored_lines, trace = []\<rparr>
   = score_records sample_move 18 1 [first_record] []
       \<lparr>incoming = scored_lines,
        trace = [Send (position_fen ''lost''), Send (go_depth 18), Register,
                 Deliver ''bestmove (none)'', Clear]\<rparr>
   \<and> map idx (projr (fst (score_records sample_move 18 0 [mated_record, first_record] []
         \<lparr>incoming = ''bestmove (none)'' # scored_lines, trace = []\<rparr>))) = [2]"
proof -
  let ?e = "\<lparr>incoming = ''bestmove (none)'' # scored_lines, trace = []\<rparr>"
  let ?e1 = "\<lparr>incoming = scored_lines,
        trace = [Send (position_fen ''lost''), Send (go_depth 18), Register,
                 Deliver ''bestmove (none)'', Clear]\<rparr>"
  have h1: "waitForLineMatching (prefix ''bestmove'')
             (send (go_depth 18) (send (position_fen (fromFen mated_record)) ?e))
           = (Inr ''bestmove (none)'', ?e1)"
    by (simp add: waitForLineMatching_def send_def mated_record_def)
  have h2: "bestMoveUci ''bestmove (none)'' = None
         \<or> (\<exists>bestMove. bestMoveUci ''bestmove (none)'' = Some bestMove
               \<and> apply_suggestion sample_move (fromFen mated_record) bestMove = None)"
    by (simp add: bestmove_eval)
  have run: "map idx (projr (fst (score_records sample_move 18 1 [first_record] [] ?e1))) = [2]"
    by (simp add: loop_eval engine_eval parse_eval bestmove_eval dec_eval)
  show ?thesis
    using unscored_record_is_skipped [OF h1 h2, of 0 "[first_record]" "[]"] run by simp
qed

theorem quit_sent_only_after_the_last_record_witness:
  "\<exists>t. trace (snd (analyze sample_move [first_record] 18 (''readyok'' # scored_lines)))
         = t @ [Send ''quit'', Sleep 50] \<and> ''quit'' \<notin> set (sent t)"
proof -
  have ok: "fst (analyze sample_move [first_record] 18 (''readyok'' # scored_lines))
            = Inr (accuracy [cplToMoveScore (Num 20)])"
    by (simp add: loop_eval engine_eval parse_eval bestmove_eval dec_eval)
  show ?thesis
    using quit_sent_only_after_the_last_record [OF surjective_pairing,
        of sample_move "[first_record]" 18 "''readyok'' # scored_lines"]
    by (simp add: ok)
qed

text \<open>
  The engine acknowledges \<open>isready\<close> and then never ends its first search: the
  analysis fails with a timeout, and the commands written stop at \<open>go\<close>. No
  \<open>quit\<close> was sent; the engine is left running.
\<close>

theorem quit_missing_after_timeout_counterexample:
  "fst (analyze sample_move [first_record] 18 [''readyok'', ''info depth 1 score cp 31''])
     = Inl WaitTimeout
   \<and> sent (trace (snd (analyze sample_move [first_record] 18
                         [''readyok'', ''info depth 1 score cp 31''])))
     = [''uci'', ''isready'', position_fen ''start'', go_depth 18]"
  by (simp add: loop_eval waitForLineMatching_def send_def sleep_def new_UciEngine_def)

text \<open>The single-flight check does reject overlapping requests and waiters.\<close>

lemma single_flight_rejects:
  "\<not> single_flight [Send (position_fen a), Send (go_depth d), Send (position_fen b)]"
  "\<not> single_flight [Send (position_fen a), Send (go_depth d), Register, Clear, Send (go_depth d)]"
  "\<not> single_flight [Register, Register]"
  by (simp_all add: single_flight_def position_fen_def go_depth_def)

theorem analysis_is_single_flight_witness:
  "prefix [Send ''uci'', Sleep 200, Send ''isready'', Register, Deliver ''readyok'', Clear,
           Send (position_fen ''start''), Send (go_depth 18), Register]
     (trace (snd (analyze sample_move [first_record] 18 (''readyok'' # scored_lines))))
   \<and> single_flight
        [Send ''uci'', Sleep 200, Send ''isready'', Register, Deliver ''readyok'', Clear,
         Send (position_fen ''start''), Send (go_depth 18), Register]"
proof -
  have h: "prefix [Send ''uci'', Sleep 200, Send ''isready'', Register, Deliver ''readyok'', Clear,
           Send (position_fen ''start''), Send (go_depth 18), Register]
     (trace (snd (analyze sample_move [first_record] 18 (''readyok'' # scored_lines))))"
    by (simp add: loop_eval waitForLineMatching_def evalPosition_def send_def sleep_def
        new_UciEngine_def quit_def Let_def parse_eval bestmove_eval)
  from analysis_is_single_flight [OF h] h show ?thesis by simp
qed

section \<open>The accuracy percentage\<close>

lemma gain_bounds: "0 \<le> gain" "1 \<le> gain"
  by (simp_all add: gain_def)

lemma round_half_even_upper: "of_int (round_half_even x) \<le> x + 1 / 2"
proof -
  have "of_int \<lfloor>x\<rfloor> \<le> x" by simp
  then show ?thesis
    by (auto simp: round_half_even_def Let_def not_less) linarith+
qed

lemma to_double_gain:
  assumes "0 \<le> q"
  shows "to_double q \<le> q * gain"
proof (cases "q = 0")
  case True
  then show ?thesis by (simp add: to_double_def)
next
  case False
  with assms have pos: "0 < q" by simp
  let ?u = "pow2 (expo q - 52)"
  have u: "0 < ?u" by simp
  have "of_int (round_half_even (q / ?u)) \<le> q / ?u + 1 / 2" by (rule round_half_even_upper)
  then have "of_int (round_half_even (q / ?u)) * ?u \<le> (q / ?u + 1 / 2) * ?u"
    using u by (simp add: mult_right_mono less_imp_le)
  moreover have "(q / ?u + 1 / 2) * ?u = q + ?u / 2" using u by (simp add: field_simps)
  ultimately have "to_double q \<le> q + ?u / 2" by (simp add: to_double_pos_unfold [OF pos])
  moreover have "?u / 2 \<le> q / 2 ^ 53" using ulp_le [OF pos] by simp
  ultimately show ?thesis by (simp add: gain_def field_simps)
qed

lemma foldl_dadd_sum_lower:
  assumes "\<forall>s \<in> set ss. 0 \<le> s" and "0 \<le> a"
  shows "(a + sum_list ss) * keep ^ length ss \<le> foldl dadd a ss"
  using assms
proof (induction ss arbitrary: a)
  case Nil
  then show ?case by simp
next
  case (Cons s ss)
  have s: "0 \<le> s" using Cons.prems(1) by simp
  have rest: "0 \<le> sum_list ss" using Cons.prems(1) by (intro sum_list_nonneg) simp
  have as: "0 \<le> a + s" using s Cons.prems(2) by linarith
  have r: "(a + s) * keep \<le> dadd a s" unfolding dadd_def by (rule to_double_keep [OF as])
  have nn: "0 \<le> dadd a s" unfolding dadd_def by (rule to_double_nonneg [OF as])
  have ih: "(dadd a s + sum_list ss) * keep ^ length ss \<le> foldl dadd (dadd a s) ss"
    using Cons.IH [of "dadd a s"] Cons.prems(1) nn by simp
  have "sum_list ss * keep \<le> sum_list ss"
    using keep_bounds(2) rest by (intro mult_left_le) simp_all
  with r have "(a + s) * keep + sum_list ss * keep \<le> dadd a s + sum_list ss" by linarith
  then have "((a + s) * keep + sum_list ss * keep) * keep ^ length ss
             \<le> (dadd a s + sum_list ss) * keep ^ length ss"
    using keep_bounds(1) by (intro mult_right_mono) simp_all
  moreover have "((a + s) * keep + sum_list ss * keep) * keep ^ length ss
                 = (a + sum_list (s # ss)) * keep ^ length (s # ss)"
    by (simp add: algebra_simps)
  ultimately show ?case using ih by simp
qed

lemma foldl_dadd_sum_upper:
  assumes "\<forall>s \<in> set ss. 0 \<le> s" and "0 \<le> a"
  shows "foldl dadd a ss \<le> (a + sum_list ss) * gain ^ length ss"
  using assms
proof (induction ss arbitrary: a)
  case Nil
  then show ?case by simp
next
  case (Cons s ss)
  have s: "0 \<le> s" using Cons.prems(1) by simp
  have rest: "0 \<le> sum_list ss" using Cons.prems(1) by (intro sum_list_nonneg) simp
  have as: "0 \<le> a + s" using s Cons.prems(2) by linarith
  have r: "dadd a s \<le> (a + s) * gain" unfolding dadd_def by (rule to_double_gain [OF as])
  have nn: "0 \<le> dadd a s" unfolding dadd_def by (rule to_double_nonneg [OF as])
  have ih: "foldl dadd (dadd a s) ss \<le> (dadd a s + sum_list ss) * gain ^ length ss"
    using Cons.IH [of "dadd a s"] Cons.prems(1) nn by simp
  have "sum_list ss * 1 \<le> sum_list ss * gain"
    using gain_bounds(2) rest by (intro mult_left_mono) simp_all
  with r have "dadd a s + sum_list ss \<le> (a + s) * gain + sum_list ss * gain" by linarith
  then have "(dadd a s + sum_list ss) * gain ^ length ss
             \<le> ((a + s) * gain + sum_list ss * gain) * gain ^ length ss"
    using gain_bounds(1) by (intro mult_right_mono) simp_all
  moreover have "((a + s) * gain + sum_list ss * gain) * gain ^ length ss
                 = (a + sum_list (s # ss)) * gain ^ length (s # ss)"
    by (simp add: algebra_simps)
  ultimately show ?case using ih by simp
qed

lemma accuracy_near_mean:
  assumes "scores \<noteq> []" and "\<forall>s \<in> set scores. 0 \<le> s"
  shows "mean_percentage scores * keep ^ (length scores + 2) \<le> accuracy scores"
    and "accuracy scores \<le> mean_percentage scores * gain ^ (length scores + 2)"
proof -
  let ?k = "length scores"
  let ?n = "of_nat ?k :: rat"
  let ?S = "foldl dadd 0 scores"
  let ?T = "sum_list scores"
  have n: "0 < ?n" using assms(1) by simp
  have T0: "0 \<le> ?T" using assms(2) by (intro sum_list_nonneg) simp
  have lo: "?T * keep ^ ?k \<le> ?S" using foldl_dadd_sum_lower [OF assms(2), of 0] by simp
  have hi: "?S \<le> ?T * gain ^ ?k" using foldl_dadd_sum_upper [OF assms(2), of 0] by simp
  have S0: "0 \<le> ?S"
  proof -
    have "0 \<le> ?T * keep ^ ?k" using T0 keep_bounds(1) by simp
    with lo show ?thesis by linarith
  qed
  have q0: "0 \<le> ?S / ?n" using S0 n by simp
  have avg0: "0 \<le> ddiv ?S ?n" unfolding ddiv_def by (rule to_double_nonneg [OF q0])
  have p0: "0 \<le> ddiv ?S ?n * 100" using avg0 by simp
  have acc: "accuracy scores = dmul (ddiv ?S ?n) 100" using assms(1) by (simp add: accuracy_def)
  have mp: "mean_percentage scores = ?T / ?n * 100" by (simp add: mean_percentage_def)
  show "mean_percentage scores * keep ^ (?k + 2) \<le> accuracy scores"
  proof -
    have "?T * keep ^ ?k / ?n \<le> ?S / ?n" using lo n by (intro divide_right_mono) simp_all
    then have "?T * keep ^ ?k / ?n * keep \<le> ?S / ?n * keep"
      using keep_bounds(1) by (intro mult_right_mono)
    moreover have "?S / ?n * keep \<le> ddiv ?S ?n" unfolding ddiv_def by (rule to_double_keep [OF q0])
    ultimately have "?T * keep ^ ?k / ?n * keep \<le> ddiv ?S ?n" by (rule order_trans)
    then have "?T * keep ^ ?k / ?n * keep * 100 \<le> ddiv ?S ?n * 100"
      by (rule mult_right_mono) simp
    then have a: "?T * keep ^ ?k / ?n * keep * 100 * keep \<le> ddiv ?S ?n * 100 * keep"
      using keep_bounds(1) by (rule mult_right_mono)
    have b: "ddiv ?S ?n * 100 * keep \<le> dmul (ddiv ?S ?n) 100"
      unfolding dmul_def by (rule to_double_keep [OF p0])
    have e: "?T * keep ^ ?k / ?n * keep * 100 * keep = ?T / ?n * 100 * keep ^ (?k + 2)"
      by (simp add: power2_eq_square power_add)
    from a b have "?T * keep ^ ?k / ?n * keep * 100 * keep \<le> dmul (ddiv ?S ?n) 100"
      by (rule order_trans)
    then show ?thesis unfolding acc mp e .
  qed
  show "accuracy scores \<le> mean_percentage scores * gain ^ (?k + 2)"
  proof -
    have "?S / ?n \<le> ?T * gain ^ ?k / ?n" using hi n by (intro divide_right_mono) simp_all
    then have "?S / ?n * gain \<le> ?T * gain ^ ?k / ?n * gain"
      using gain_bounds(1) by (intro mult_right_mono)
    moreover have "ddiv ?S ?n \<le> ?S / ?n * gain" unfolding ddiv_def by (rule to_double_gain [OF q0])
    ultimately have "ddiv ?S ?n \<le> ?T * gain ^ ?k / ?n * gain" by (rule order_trans [rotated])
    then have "ddiv ?S ?n * 100 \<le> ?T * gain ^ ?k / ?n * gain * 100"
      by (rule mult_right_mono) simp
    then have a: "ddiv ?S ?n * 100 * gain \<le> ?T * gain ^ ?k / ?n * gain * 100 * gain"
      using gain_bounds(1) by (rule mult_right_mono)
    have b: "dmul (ddiv ?S ?n) 100 \<le> ddiv ?S ?n * 100 * gain"
      unfolding dmul_def by (rule to_double_gain [OF p0])
    have e: "?T * gain ^ ?k / ?n * gain * 100 * gain = ?T / ?n * 100 * gain ^ (?k + 2)"
      by (simp add: power2_eq_square power_add)
    from b a have "dmul (ddiv ?S ?n) 100 \<le> ?T * gain ^ ?k / ?n * gain * 100 * gain"
      by (rule order_trans)
    then show ?thesis unfolding acc mp e .
  qed
qed

text \<open>
  C3, as the code computes it. The accuracy of the empty sequence is \<open>0\<close>, and that
  of \<open>[1.0, 0.8, 0.6]\<close> is exactly \<open>80\<close>. The accuracy of a sequence of \<open>n > 0\<close>
  scores, none negative, is the arithmetic mean scaled to \<open>[0, 100]\<close> up to the
  \<open>n + 2\<close> roundings of the \<open>n\<close> additions, the division and the multiplication:
  it lies between the scaled mean times \<open>(1 - 2^-53)^(n + 2)\<close> and the scaled mean
  times \<open>(1 + 2^-53)^(n + 2)\<close>.
\<close>

theorem accuracy_within_rounding_of_mean:
  "accuracy [] = 0
   \<and> accuracy [1, to_double (8 / 10), to_double (6 / 10)] = 80
   \<and> (scores \<noteq> [] \<longrightarrow> (\<forall>s \<in> set scores. 0 \<le> s) \<longrightarrow>
        mean_percentage scores * keep ^ (length scores + 2) \<le> accuracy scores
        \<and> accuracy scores \<le> mean_percentage scores * gain ^ (length scores + 2))"
proof -
  have "accuracy [1, to_double (8 / 10), to_double (6 / 10)] = 80"
    by (simp add: accuracy_def dbl_eval)
  moreover have "accuracy [] = 0" by (simp add: accuracy_def)
  moreover have "scores \<noteq> [] \<longrightarrow> (\<forall>s \<in> set scores. 0 \<le> s) \<longrightarrow>
        mean_percentage scores * keep ^ (length scores + 2) \<le> accuracy scores
        \<and> accuracy scores \<le> mean_percentage scores * gain ^ (length scores + 2)"
    using accuracy_near_mean [of scores] by blast
  ultimately show ?thesis by blast
qed

theorem accuracy_within_rounding_of_mean_witness:
  "[1, to_double (8 / 10), to_double (6 / 10)] \<noteq> []
   \<and> 0 \<le> to_double (8 / 10) \<and> 0 \<le> to_double (6 / 10)
   \<and> accuracy [1, to_double (8 / 10), to_double (6 / 10)] = 80
   \<and> mean_percentage [1, to_double (8 / 10), to_double (6 / 10)]
         * keep ^ (length [1, to_double (8 / 10), to_double (6 / 10)] + 2) \<le> 80
   \<and> 80 \<le> mean_percentage [1, to_double (8 / 10), to_double (6 / 10)]
         * gain ^ (length [1, to_double (8 / 10), to_double (6 / 10)] + 2)"
proof -
  let ?xs = "[1, to_double (8 / 10), to_double (6 / 10)]"
  have h1: "?xs \<noteq> []" by simp
  have h2: "\<forall>s \<in> set ?xs. 0 \<le> s" by (simp add: double_literals)
  have a: "accuracy ?xs = 80" using accuracy_within_rounding_of_mean [of ?xs] by blast
  have b: "mean_percentage ?xs * keep ^ (length ?xs + 2) \<le> accuracy ?xs
           \<and> accuracy ?xs \<le> mean_percentage ?xs * gain ^ (length ?xs + 2)"
    using accuracy_within_rounding_of_mean [of ?xs] h1 h2 by blast
  have h3: "0 \<le> to_double (8 / 10) \<and> 0 \<le> to_double (6 / 10)"
    by (simp add: double_literals)
  from h1 h3 a b [unfolded a] show ?thesis by blast
qed

text \<open>
  Three moves that each lose 300 centipawns score \<open>0.10\<close> each. The mean of the
  three scores, scaled, is \<open>100\<close> times the double \<open>0.10\<close>; the accuracy is
  \<open>10.000000000000002\<close>, which is another number.
\<close>

theorem accuracy_not_the_mean_counterexample:
  "map cplToMoveScore [Num 300, Num 300, Num 300] = replicate 3 (to_double (10 / 100))
   \<and> accuracy (map cplToMoveScore [Num 300, Num 300, Num 300])
       = 5629499534213121 / 562949953421312
   \<and> mean_percentage (map cplToMoveScore [Num 300, Num 300, Num 300])
       = 90071992547409925 / 9007199254740992
   \<and> accuracy (map cplToMoveScore [Num 300, Num 300, Num 300])
       \<noteq> mean_percentage (map cplToMoveScore [Num 300, Num 300, Num 300])"
proof -
  have s: "map cplToMoveScore [Num 300, Num 300, Num 300] = replicate 3 (to_double (10 / 100))"
    by (simp add: cplToMoveScore_def numeral_3_eq_3)
  have a: "accuracy (replicate 3 (to_double (10 / 100))) = 5629499534213121 / 562949953421312"
    by (simp add: accuracy_def numeral_3_eq_3 double_literals dbl_eval)
  have m: "mean_percentage (replicate 3 (to_double (10 / 100)))
           = 90071992547409925 / 9007199254740992"
    by (simp add: mean_percentage_def numeral_3_eq_3 double_literals)
  show ?thesis unfolding s a m by simp
qed

section \<open>The accuracy of a scored game\<close>

lemma score_record_entry:
  assumes "score_record chess_move depth i rec e = (Inr (Some m), e')"
  shows "\<exists>c. score m = cplToMoveScore c"
  using assms by (cases rule: score_record_cases) (auto simp: score_move_fields)

lemma score_records_entries:
  assumes "score_records chess_move depth i recs moveScores e = (Inr out, e')"
  shows "\<exists>new. out = moveScores @ new \<and> length new \<le> length recs
           \<and> (\<forall>m \<in> set new. \<exists>c. score m = cplToMoveScore c)"
  using assms
proof (induction recs arbitrary: i moveScores e)
  case Nil
  then show ?case by simp
next
  case (Cons rec recs)
  obtain r1 e1 where b: "score_record chess_move depth i rec e = (r1, e1)"
    by (cases "score_record chess_move depth i rec e")
  show ?case
  proof (cases r1)
    case (Inl err)
    then show ?thesis using Cons.prems b by simp
  next
    case (Inr entry)
    show ?thesis
    proof (cases entry)
      case None
      then have "score_records chess_move depth (i + 1) recs moveScores e1 = (Inr out, e')"
        using Cons.prems b Inr by simp
      from Cons.IH [OF this] show ?thesis by auto
    next
      case (Some m)
      then have "score_records chess_move depth (i + 1) recs (moveScores @ [m]) e1 = (Inr out, e')"
        using Cons.prems b Inr by simp
      from Cons.IH [OF this] obtain new
        where n: "out = (moveScores @ [m]) @ new" "length new \<le> length recs"
          "\<forall>x \<in> set new. \<exists>c. score x = cplToMoveScore c" by blast
      have "\<exists>c. score m = cplToMoveScore c"
        using b Inr Some by (intro score_record_entry [of chess_move depth i rec e m e1]) simp
      with n have "out = moveScores @ (m # new) \<and> length (m # new) \<le> length (rec # recs)
           \<and> (\<forall>x \<in> set (m # new). \<exists>c. score x = cplToMoveScore c)" by simp
      then show ?thesis by blast
    qed
  qed
qed

lemma score_game_entries:
  assumes "score_game chess_move moveRecords depth lines = (Inr moveScores, e)"
  shows "length moveScores \<le> length moveRecords
       \<and> (\<forall>m \<in> set moveScores. \<exists>c. score m = cplToMoveScore c)"
proof -
  let ?e0 = "send ''isready'' (sleep 200 (new_UciEngine lines))"
  obtain r1 e1 where w: "waitForLineMatching (\<lambda>l. l = ''readyok'') ?e0 = (r1, e1)"
    by (cases "waitForLineMatching (\<lambda>l. l = ''readyok'') ?e0")
  obtain r2 e2 where l: "score_records chess_move depth 0 moveRecords [] e1 = (r2, e2)"
    by (cases "score_records chess_move depth 0 moveRecords [] e1")
  have "r2 = Inr moveScores"
    using assms w l by (cases r1; cases r2) (auto simp: score_game_def)
  with l have "score_records chess_move depth 0 moveRecords [] e1 = (Inr moveScores, e2)" by simp
  from score_records_entries [OF this] show ?thesis by auto
qed

lemma double_tenth_ge: "1 / 10 \<le> to_double (10 / 100)"
  by (simp add: double_literals)

text \<open>
  C9, as the code computes it. When at least one move of an analysis is scored, every
  score is at least \<open>0.10\<close> and at most \<open>1\<close>, and the percentage that \<open>analyze\<close>
  returns for \<open>n\<close> scored moves is positive, at most \<open>100\<close> and at least
  \<open>10 * (1 - (n + 2) / 2^53)\<close>: the mean is taken in double arithmetic, where each of
  the \<open>n\<close> additions, the division and the multiplication may round down.
\<close>

theorem accuracy_of_a_scored_game:
  assumes "score_game chess_move moveRecords depth lines = (Inr moveScores, e)"
    and "moveScores \<noteq> []" and "length moveRecords + 2 < 2 ^ 53"
  shows "analyze chess_move moveRecords depth lines = (Inr (accuracy (map score moveScores)), e)
       \<and> (\<forall>m \<in> set moveScores. to_double (10 / 100) \<le> score m \<and> score m \<le> 1)
       \<and> 10 * (1 - (of_nat (length moveScores) + 2) / 2 ^ 53) \<le> accuracy (map score moveScores)
       \<and> 0 < accuracy (map score moveScores)
       \<and> accuracy (map score moveScores) \<le> 100"
proof -
  let ?scores = "map score moveScores"
  note ent = score_game_entries [OF assms(1)]
  have len: "length ?scores + 2 < 2 ^ 53" using ent assms(3) by simp
  have range: "\<forall>s \<in> set ?scores. 1 / 10 \<le> s \<and> 0 \<le> s \<and> s \<le> 1"
  proof
    fix s assume "s \<in> set ?scores"
    then obtain m where "m \<in> set moveScores" "s = score m" by auto
    with ent obtain c where s: "s = cplToMoveScore c" by auto
    have "1 / 10 \<le> s"
      unfolding s using cplToMoveScore_lower [of c] double_tenth_ge by (rule order_trans [rotated])
    moreover have "s \<le> 1" unfolding s by (rule cplToMoveScore_upper)
    ultimately show "1 / 10 \<le> s \<and> 0 \<le> s \<and> s \<le> 1" by simp
  qed
  have lower: "10 * (1 - (of_nat (length ?scores) + 2) / 2 ^ 53) \<le> accuracy ?scores"
    using assms(2) range by (intro accuracy_lower) simp_all
  have upper: "accuracy ?scores \<le> 100"
    using range len by (intro accuracy_upper) simp_all
  have "(of_nat (length ?scores + 2) :: rat) < of_nat (2 ^ 53)"
    using len by (simp only: of_nat_less_iff)
  then have "(of_nat (length ?scores) + 2) / 2 ^ 53 < (1::rat)" by simp
  then have "0 < 10 * (1 - (of_nat (length ?scores) + 2) / (2 ^ 53 :: rat))" by simp
  from this lower have pos: "0 < accuracy ?scores" by (rule less_le_trans)
  have each: "\<forall>m \<in> set moveScores. to_double (10 / 100) \<le> score m \<and> score m \<le> 1"
  proof
    fix m assume "m \<in> set moveScores"
    with ent obtain c where "score m = cplToMoveScore c" by auto
    then show "to_double (10 / 100) \<le> score m \<and> score m \<le> 1"
      using cplToMoveScore_lower [of c] cplToMoveScore_upper [of c] by simp
  qed
  have "analyze chess_move moveRecords depth lines = (Inr (accuracy ?scores), e)"
    by (simp add: analyze_def assms(1))
  with each lower pos upper show ?thesis by simp
qed

theorem accuracy_of_a_scored_game_witness:
  "fst (analyze sample_move [first_record] 18 (''readyok'' # scored_lines))
     = Inr (accuracy [cplToMoveScore (Num 20)])
   \<and> 10 * (1 - (1 + 2) / 2 ^ 53) \<le> accuracy [cplToMoveScore (Num 20)]
   \<and> accuracy [cplToMoveScore (Num 20)] \<le> 100"
proof -
  let ?g = "score_game sample_move [first_record] 18 (''readyok'' # scored_lines)"
  have "fst ?g = Inr [\<lparr>idx = 1, move = ''e4'', cpl = Num 20, score = cplToMoveScore (Num 20)\<rparr>]"
    by (simp add: loop_eval engine_eval parse_eval bestmove_eval dec_eval)
  then have h1: "?g = (Inr [\<lparr>idx = 1, move = ''e4'', cpl = Num 20, score = cplToMoveScore (Num 20)\<rparr>], snd ?g)"
    by (simp add: prod_eq_iff)
  have h2: "[\<lparr>idx = 1, move = ''e4'', cpl = Num 20, score = cplToMoveScore (Num 20)\<rparr>] \<noteq> []" by simp
  have h3: "length [first_record] + 2 < 2 ^ 53" by simp
  show ?thesis
    using accuracy_of_a_scored_game [OF h1 h2 h3] by simp
qed

subsection \<open>A game of forty-eight blunders\<close>

lemma blunder_scored:
  "score_record sample_move 18 i first_record \<lparr>incoming = blunder_lines @ rest, trace = t\<rparr>
   = (Inr (Some \<lparr>idx = i + 1, move = ''e4'', cpl = Num 335, score = to_double (10 / 100)\<rparr>),
      \<lparr>incoming = rest,
       trace = t @ [Send (position_fen ''start''), Send (go_depth 18), Register,
                    Deliver ''info depth 18 score cp 31'', Deliver ''bestmove e2e4 ponder e7e5'', Clear,
                    Send (position_fen ''after-e4''), Send (go_depth 18), Register,
                    Deliver ''info depth 18 score cp 35'', Deliver ''bestmove e7e5'', Clear,
                    Send (position_fen ''after-e4''), Send (go_depth 18), Register,
                    Deliver ''info depth 18 score cp -300'', Deliver ''bestmove e7e5'', Clear]\<rparr>)"
  by (simp add: score_record_def apply_suggestion_def score_move_def centipawnLoss_def
      playerMultiplier_def sample_move_def first_record_def blunder_lines_def
      waitForLineMatching_def evalPosition_def send_def Let_def parse_eval bestmove_eval
      cplToMoveScore_def)

lemma blunders_scored:
  "\<exists>out e'. score_records sample_move 18 i (replicate n first_record) moveScores
       \<lparr>incoming = concat (replicate n blunder_lines), trace = t\<rparr> = (Inr out, e')
     \<and> map score out = map score moveScores @ replicate n (to_double (10 / 100))
     \<and> incoming e' = []"
proof (induction n arbitrary: i moveScores t)
  case 0
  show ?case by simp
next
  case (Suc n)
  let ?m = "\<lparr>idx = i + 1, move = ''e4'', cpl = Num 335, score = to_double (10 / 100)\<rparr>"
  obtain t' where
    step: "score_record sample_move 18 i first_record
             \<lparr>incoming = blunder_lines @ concat (replicate n blunder_lines), trace = t\<rparr>
           = (Inr (Some ?m), \<lparr>incoming = concat (replicate n blunder_lines), trace = t'\<rparr>)"
    using blunder_scored [of i "concat (replicate n blunder_lines)" t] by blast
  from Suc [of "i + 1" "moveScores @ [?m]" t'] obtain out e'
    where "score_records sample_move 18 (i + 1) (replicate n first_record) (moveScores @ [?m])
       \<lparr>incoming = concat (replicate n blunder_lines), trace = t'\<rparr> = (Inr out, e')"
      "map score out = map score (moveScores @ [?m]) @ replicate n (to_double (10 / 100))"
      "incoming e' = []" by blast
  then show ?case using step by (simp add: replicate_app_Cons_same)
qed

text \<open>
  Forty-eight scored moves, each with the score \<open>0.10\<close>: the sum of the scores comes
  out below \<open>4.8\<close>, and the percentage is \<open>9.999999999999998\<close>, below \<open>10\<close>.
\<close>

lemma replicate_numeral_unfold: "replicate (numeral k) x = x # replicate (pred_numeral k) x"
  by (simp add: numeral_eq_Suc)

lemma accuracy_of_blunders:
  "accuracy (replicate 48 (to_double (10 / 100))) = 5629499534213119 / 562949953421312"
  by (simp add: accuracy_def replicate_numeral_unfold double_literals dbl_eval)

theorem accuracy_below_ten_counterexample:
  "fst (analyze sample_move (replicate 48 first_record) 18
          (''readyok'' # concat (replicate 48 blunder_lines)))
     = Inr (5629499534213119 / 562949953421312)
   \<and> (5629499534213119 / 562949953421312 :: rat) < 10"
proof -
  let ?t = "[Send ''uci'', Sleep 200, Send ''isready'', Register, Deliver ''readyok'', Clear]"
  from blunders_scored [of 0 48 "[]" ?t] obtain out e'
    where run: "score_records sample_move 18 0 (replicate 48 first_record) []
       \<lparr>incoming = concat (replicate 48 blunder_lines), trace = ?t\<rparr> = (Inr out, e')"
      and sc: "map score out = replicate 48 (to_double (10 / 100))" by auto
  have "fst (analyze sample_move (replicate 48 first_record) 18
          (''readyok'' # concat (replicate 48 blunder_lines)))
        = Inr (accuracy (map score out))"
    by (simp add: analyze_def score_game_def waitForLineMatching_def send_def sleep_def
        new_UciEngine_def run)
  then have "fst (analyze sample_move (replicate 48 first_record) 18
          (''readyok'' # concat (replicate 48 blunder_lines)))
        = Inr (5629499534213119 / 562949953421312)"
    unfolding sc accuracy_of_blunders .
  moreover have "(5629499534213119 / 562949953421312 :: rat) < 10" by simp
  ultimately show ?thesis by (rule conjI)
qed

end
